theory Spec2Isabelle
  imports Complex_Main
begin

section \<open>Configuration read from the environment\<close>

text \<open>
  The service reads its tunables once from \<^verbatim>\<open>process.env\<close>, each with a default:
  \<^verbatim>\<open>CB_COOLDOWN_MS ?? 15000\<close>, \<^verbatim>\<open>CB_WINDOW_MS ?? 30000\<close>, \<^verbatim>\<open>CB_FAILURES ?? 3\<close>,
  \<^verbatim>\<open>RETRY_MAX ?? 3\<close> and \<^verbatim>\<open>RETRY_BASE_MS ?? 200\<close>. All of them are millisecond or
  count values; they are modelled as integers. Instants are the integer milliseconds
  that \<^verbatim>\<open>Date.now()\<close> returns, and every call of \<^verbatim>\<open>Math.random()\<close> is an explicit
  real argument (the contract of the source is that it lies in \<open>[0, 1)\<close>).
\<close>

record config =
  CB_COOLDOWN_MS :: int
  windowMs :: int
  maxFailures :: int
  RETRY_MAX :: int
  RETRY_BASE_MS :: int

definition default_config :: config where
  "default_config =
     \<lparr>CB_COOLDOWN_MS = 15000, windowMs = 30000, maxFailures = 3,
      RETRY_MAX = 3, RETRY_BASE_MS = 200\<rparr>"

section \<open>Circuit breaker\<close>

datatype cb_state = CLOSED | OPEN | HALF_OPEN

record breaker =
  state :: cb_state
  failures :: "int list"
  nextAttemptAt :: int
  cooldownMs :: int

text \<open>The closure's initial bindings.\<close>

definition CB_init :: "config \<Rightarrow> breaker" where
  "CB_init cfg =
     \<lparr>state = CLOSED, failures = [], nextAttemptAt = 0, cooldownMs = CB_COOLDOWN_MS cfg\<rparr>"

text \<open>The literal \<^verbatim>\<open>120000\<close> of \<^verbatim>\<open>Math.min(cooldownMs * 2, 120000)\<close>.\<close>

definition maxCooldown :: int where
  "maxCooldown = 120000"

text \<open>\<^verbatim>\<open>Math.floor(Math.random() * 250)\<close>, for the value \<open>rnd\<close> drawn.\<close>

definition cooldown_jitter :: "real \<Rightarrow> int" where
  "cooldown_jitter rnd = \<lfloor>rnd * 250\<rfloor>"

text \<open>
  \<^verbatim>\<open>record(success)\<close>, called at instant \<open>t\<close>; \<open>rnd\<close> is what \<^verbatim>\<open>Math.random()\<close>
  returns if the failed-probe branch draws it.
\<close>

definition CB_record :: "config \<Rightarrow> int \<Rightarrow> real \<Rightarrow> bool \<Rightarrow> breaker \<Rightarrow> breaker" where
  "CB_record cfg t rnd success b =
     (let evicted = filter (\<lambda>ts. t - ts < windowMs cfg) (failures b);
          fs = (if \<not> success then evicted @ [t] else evicted)
      in if state b = CLOSED \<and> maxFailures cfg \<le> int (length fs) then
           b\<lparr>failures := fs, state := OPEN, nextAttemptAt := t + cooldownMs b\<rparr>
         else if state b = HALF_OPEN then
           (if success then
              b\<lparr>failures := [], state := CLOSED, cooldownMs := CB_COOLDOWN_MS cfg\<rparr>
            else
              (let cd = min (cooldownMs b * 2) maxCooldown + cooldown_jitter rnd
               in b\<lparr>failures := fs, state := OPEN, cooldownMs := cd,
                     nextAttemptAt := t + cd\<rparr>))
         else b\<lparr>failures := fs\<rparr>)"

record admission =
  allowed :: bool
  probe :: bool
  retryAfter :: int

text \<open>\<^verbatim>\<open>allowRequest()\<close>, called at instant \<open>t\<close>: the object returned and the breaker after.\<close>

definition allowRequest :: "int \<Rightarrow> breaker \<Rightarrow> admission \<times> breaker" where
  "allowRequest t b =
     (if state b = OPEN then
        (if nextAttemptAt b \<le> t then
           (\<lparr>allowed = True, probe = True, retryAfter = 0\<rparr>, b\<lparr>state := HALF_OPEN\<rparr>)
         else
           (\<lparr>allowed = False, probe = False,
             retryAfter = \<lceil>real_of_int (nextAttemptAt b - t) / 1000\<rceil>\<rparr>, b))
      else (\<lparr>allowed = True, probe = False, retryAfter = 0\<rparr>, b))"

definition getState :: "breaker \<Rightarrow> cb_state \<times> breaker" where
  "getState b = (state b, b)"

subsection \<open>Sequential traces of breaker calls\<close>

text \<open>
  The breaker lives in one closure and JavaScript runs each call to completion, so a
  history of the breaker is a list of calls, each with the clock reading (and the
  random draw) it observes.
\<close>

datatype cb_op = Record int real bool | AllowRequest int | GetState

fun step :: "config \<Rightarrow> cb_op \<Rightarrow> breaker \<Rightarrow> breaker" where
  "step cfg (Record t rnd success) b = CB_record cfg t rnd success b"
| "step cfg (AllowRequest t) b = snd (allowRequest t b)"
| "step cfg GetState b = snd (getState b)"

fun run :: "config \<Rightarrow> cb_op list \<Rightarrow> breaker \<Rightarrow> breaker" where
  "run cfg [] b = b"
| "run cfg (op # ops) b = run cfg ops (step cfg op b)"

text \<open>\<^verbatim>\<open>Math.random()\<close> returns a number in \<open>[0, 1)\<close>.\<close>

fun draws_ok :: "cb_op \<Rightarrow> bool" where
  "draws_ok (Record t rnd success) = (0 \<le> rnd \<and> rnd < 1)"
| "draws_ok (AllowRequest t) = True"
| "draws_ok GetState = True"

text \<open>Successive \<^verbatim>\<open>allowRequest()\<close> calls at the instants given: what each returns.\<close>

fun allowRequests :: "int list \<Rightarrow> breaker \<Rightarrow> admission list \<times> breaker" where
  "allowRequests [] b = ([], b)"
| "allowRequests (t # ts) b =
     (case allowRequest t b of (a, b1) \<Rightarrow>
        (case allowRequests ts b1 of (as, b2) \<Rightarrow> (a # as, b2)))"

text \<open>Successive \<^verbatim>\<open>record(success)\<close> calls: instant, random draw and outcome of each.\<close>

datatype record_call = RecordCall (call_now: int) (call_random: real) (call_success: bool)

fun record_all :: "config \<Rightarrow> record_call list \<Rightarrow> breaker \<Rightarrow> breaker" where
  "record_all cfg [] b = b"
| "record_all cfg (c # cs) b =
     record_all cfg cs (CB_record cfg (call_now c) (call_random c) (call_success c) b)"

subsection \<open>Counting the failures in the window\<close>

text \<open>The instants of the failures among a list of \<^verbatim>\<open>record\<close> calls.\<close>

definition failure_times :: "record_call list \<Rightarrow> int list" where
  "failure_times cs = map call_now (filter (\<lambda>c. \<not> call_success c) cs)"

text \<open>
  In the specification's words a timestamp is evicted when it is older than the window,
  so the timestamps within the trailing window at instant \<open>t\<close> are those that are not
  older than it: a timestamp exactly \<open>windowMs\<close> old still counts.
\<close>

definition failures_in_window :: "config \<Rightarrow> int \<Rightarrow> int list \<Rightarrow> nat" where
  "failures_in_window cfg t tss = length (filter (\<lambda>ts. \<not> windowMs cfg < t - ts) tss)"

text \<open>
  The count with the boundary the other way: the timestamps that are less than
  \<open>windowMs\<close> old at instant \<open>t\<close>, so that one exactly \<open>windowMs\<close> old does not count.
\<close>

definition failures_younger_than_window :: "config \<Rightarrow> int \<Rightarrow> int list \<Rightarrow> nat" where
  "failures_younger_than_window cfg t tss = length (filter (\<lambda>ts. t - ts < windowMs cfg) tss)"

text \<open>
  At the \<open>k\<close>-th of the calls \<open>cs\<close> (counted from 1), made on a breaker that held the
  timestamps \<open>fs0\<close> before the first: the failures recorded so far that are less than
  \<open>windowMs\<close> old reach the threshold.
\<close>

definition reaches_threshold :: "config \<Rightarrow> int list \<Rightarrow> record_call list \<Rightarrow> nat \<Rightarrow> bool" where
  "reaches_threshold cfg fs0 cs k =
     (maxFailures cfg
        \<le> int (failures_younger_than_window cfg (call_now (cs ! (k - 1)))
                 (fs0 @ failure_times (take k cs))))"

section \<open>Upstream responses\<close>

text \<open>
  What \<^verbatim>\<open>await fetch(...)\<close> yields: the promise rejects (no response at all), or it
  resolves to a response with its \<^verbatim>\<open>ok\<close> flag and \<^verbatim>\<open>status\<close>; \<^verbatim>\<open>await resp.json()\<close>
  yields the parsed body, or rejects (\<open>None\<close>).
\<close>

record 'v response =
  ok :: bool
  status :: int
  json :: "'v option"

datatype 'v fetched = Rejected | Resolved "'v response"

section \<open>Retry with backoff\<close>

datatype retry_error =
    Upstream int      \<comment> \<open>\<^verbatim>\<open>new Error(`Upstream ${resp.status}`)\<close>\<close>
  | UpstreamError     \<comment> \<open>\<^verbatim>\<open>new Error('Upstream error')\<close>\<close>
  | FetchRejected     \<comment> \<open>the rejection of \<^verbatim>\<open>fetch\<close> itself, passed on\<close>

text \<open>What a call does besides returning: the requests it sends and the timers it awaits.\<close>

datatype effect = Fetch nat | Sleep int

text \<open>\<^verbatim>\<open>baseMs * 2 ** attempt + Math.floor(Math.random() * 50)\<close>\<close>

definition backoff :: "int \<Rightarrow> nat \<Rightarrow> real \<Rightarrow> int" where
  "backoff baseMs attempt rnd = baseMs * 2 ^ attempt + \<lfloor>rnd * 50\<rfloor>"

text \<open>
  The \<^verbatim>\<open>for\<close> loop of \<^verbatim>\<open>postWithRetry\<close> from a given \<open>attempt\<close>, with the loop's
  \<^verbatim>\<open>lastErr\<close> and the effects so far (\<open>max_attempts\<close> is the parameter \<^verbatim>\<open>max\<close>).
  \<open>fetch k\<close> is what the request of attempt \<open>k\<close> yields and \<open>rnd k\<close> the random number
  drawn after it.
\<close>

function postWithRetry_loop ::
  "int \<Rightarrow> int \<Rightarrow> (nat \<Rightarrow> 'v fetched) \<Rightarrow> (nat \<Rightarrow> real) \<Rightarrow> nat \<Rightarrow> retry_error option \<Rightarrow> effect list
     \<Rightarrow> (retry_error + 'v response) \<times> effect list" where
  "postWithRetry_loop max_attempts baseMs fetch rnd attempt lastErr effs =
     (if int attempt < max_attempts then
        (case fetch attempt of
           Rejected \<Rightarrow> (Inl FetchRejected, effs @ [Fetch attempt])
         | Resolved resp \<Rightarrow>
             if ok resp then (Inr resp, effs @ [Fetch attempt])
             else if 500 \<le> status resp then
               postWithRetry_loop max_attempts baseMs fetch rnd (attempt + 1)
                 (Some (Upstream (status resp)))
                 (effs @ [Fetch attempt, Sleep (backoff baseMs attempt (rnd attempt))])
             else (Inl (Upstream (status resp)), effs @ [Fetch attempt]))
      else
        (Inl (case lastErr of Some e \<Rightarrow> e | None \<Rightarrow> UpstreamError), effs))"
  by pat_completeness auto
termination
  by (relation "measure (\<lambda>(max_attempts, baseMs, fetch, rnd, attempt, lastErr, effs).
                   nat (max_attempts - int attempt))")
     auto

declare postWithRetry_loop.simps [simp del]

definition postWithRetry ::
  "int \<Rightarrow> int \<Rightarrow> (nat \<Rightarrow> 'v fetched) \<Rightarrow> (nat \<Rightarrow> real)
     \<Rightarrow> (retry_error + 'v response) \<times> effect list" where
  "postWithRetry max_attempts baseMs fetch rnd = postWithRetry_loop max_attempts baseMs fetch rnd 0 None []"

text \<open>The delays of the timers awaited, in order, and the number of requests sent.\<close>

fun waits :: "effect list \<Rightarrow> int list" where
  "waits [] = []"
| "waits (Sleep d # es) = d # waits es"
| "waits (Fetch k # es) = waits es"

fun attempts :: "effect list \<Rightarrow> nat" where
  "attempts [] = 0"
| "attempts (Sleep d # es) = attempts es"
| "attempts (Fetch k # es) = Suc (attempts es)"

text \<open>
  How the loop classifies what an attempt yields: a response that is not \<^verbatim>\<open>ok\<close> is
  retried when \<^verbatim>\<open>resp.status >= 500\<close> and thrown at once otherwise.
\<close>

definition retryable :: "'v fetched \<Rightarrow> bool" where
  "retryable f = (case f of Rejected \<Rightarrow> False | Resolved resp \<Rightarrow> \<not> ok resp \<and> 500 \<le> status resp)"

definition non_retryable :: "'v fetched \<Rightarrow> bool" where
  "non_retryable f = (case f of Rejected \<Rightarrow> False | Resolved resp \<Rightarrow> \<not> ok resp \<and> status resp < 500)"

definition succeeds :: "'v fetched \<Rightarrow> bool" where
  "succeeds f = (case f of Rejected \<Rightarrow> False | Resolved resp \<Rightarrow> ok resp)"

text \<open>The status of the response an attempt received (0 when there was none).\<close>

definition status_of :: "'v fetched \<Rightarrow> int" where
  "status_of f = (case f of Rejected \<Rightarrow> 0 | Resolved resp \<Rightarrow> status resp)"

text \<open>The requests and timers of the attempts \<open>i, \<dots>, k - 1\<close> when each of them is retried.\<close>

definition retries :: "int \<Rightarrow> (nat \<Rightarrow> real) \<Rightarrow> nat \<Rightarrow> nat \<Rightarrow> effect list" where
  "retries baseMs rnd i k =
     concat (map (\<lambda>j. [Fetch j, Sleep (backoff baseMs j (rnd j))]) [i..<k])"

section \<open>The write endpoint\<close>

datatype 'v payload =
    Data 'v
  | Failure string string "int option"  \<comment> \<open>\<^verbatim>\<open>error\<close>, \<^verbatim>\<open>reason\<close>, \<^verbatim>\<open>retryAfter\<close>\<close>

record 'v reply =
  code :: int
  retry_after_header :: "int option"
  payload :: "'v payload"

text \<open>
  The handler after \<^verbatim>\<open>postWithRetry\<close> has settled: the \<^verbatim>\<open>try\<close> block's remainder and
  the \<^verbatim>\<open>catch\<close>. \<open>t\<close> and \<open>rnd\<close> are what \<^verbatim>\<open>CB.record\<close> observes.
\<close>

definition addEvent_settle ::
  "config \<Rightarrow> admission \<Rightarrow> (retry_error + 'v response) \<Rightarrow> int \<Rightarrow> real \<Rightarrow> breaker
     \<Rightarrow> 'v reply \<times> breaker" where
  "addEvent_settle cfg adm outcome t rnd b =
     (let caught =
            (\<lparr>code = 503, retry_after_header = None,
              payload = Failure ''Upstream unavailable''
                          (if probe adm then ''probe_failed'' else ''retry_exhausted'') None\<rparr>,
             CB_record cfg t rnd False b)
      in case outcome of
           Inl e \<Rightarrow> caught
         | Inr resp \<Rightarrow>
             (case json resp of
                None \<Rightarrow> caught
              | Some data \<Rightarrow>
                  (\<lparr>code = 200, retry_after_header = None, payload = Data data\<rparr>,
                   CB_record cfg t rnd True b)))"

text \<open>
  \<^verbatim>\<open>POST /addEvent\<close> for one request running alone: the admission check at \<open>t0\<close>, the
  retried upstream call, and the outcome recorded at \<open>t1\<close>.
\<close>

definition addEvent ::
  "config \<Rightarrow> int \<Rightarrow> (nat \<Rightarrow> 'v fetched) \<Rightarrow> (nat \<Rightarrow> real) \<Rightarrow> int \<Rightarrow> real \<Rightarrow> breaker
     \<Rightarrow> 'v reply \<times> breaker" where
  "addEvent cfg t0 fetch rnd t1 rnd_cb b =
     (case allowRequest t0 b of (adm, b1) \<Rightarrow>
        if \<not> allowed adm then
          (\<lparr>code = 503, retry_after_header = Some (retryAfter adm),
            payload = Failure ''Service temporarily unavailable'' ''circuit_open''
                        (Some (retryAfter adm))\<rparr>, b1)
        else
          addEvent_settle cfg adm
            (fst (postWithRetry (RETRY_MAX cfg) (RETRY_BASE_MS cfg) fetch rnd)) t1 rnd_cb b1)"

section \<open>The read endpoint's bounded fan-out\<close>

text \<open>
  A task is an event id together with what the \<^verbatim>\<open>GET\<close> for it yields. The handler's
  shared variables are \<^verbatim>\<open>cursor\<close> and \<^verbatim>\<open>results\<close> (created by \<^verbatim>\<open>new Array(n)\<close>, every
  slot empty); each call of the async function \<^verbatim>\<open>worker\<close> is, between two steps of the
  event loop, suspended at one of its two \<^verbatim>\<open>await\<close>s, or has returned, or has thrown.
  \<open>rejected\<close> is the first rejection, the one \<^verbatim>\<open>Promise.all\<close> passes on.
\<close>

datatype 'id fanout_error =
    FailedEvent 'id   \<comment> \<open>\<^verbatim>\<open>new Error(`Failed event ${evId}`)\<close>\<close>
  | FetchFailed       \<comment> \<open>the rejection of \<^verbatim>\<open>fetch\<close>\<close>
  | JsonFailed        \<comment> \<open>the rejection of \<^verbatim>\<open>resp.json()\<close>\<close>

datatype ('id, 'v) worker_state =
    AwaitFetch nat
  | AwaitJson nat "'v response"
  | Returned
  | Thrown "'id fanout_error"

record ('id, 'v) fanout =
  cursor :: nat
  results :: "'v option list"
  workers :: "('id, 'v) worker_state list"
  rejected :: "'id fanout_error option"

definition CONCURRENCY :: nat where
  "CONCURRENCY = 5"

text \<open>
  The head of the \<^verbatim>\<open>while\<close> loop, which runs without suspension up to the \<^verbatim>\<open>fetch\<close>:
  test \<^verbatim>\<open>cursor < eventIds.length\<close>, take \<^verbatim>\<open>myIndex = cursor++\<close>.
\<close>

definition worker_enter ::
  "('id \<times> 'v fetched) list \<Rightarrow> ('id, 'v) fanout \<Rightarrow> ('id, 'v) worker_state \<times> ('id, 'v) fanout" where
  "worker_enter tasks s =
     (if cursor s < length tasks then (AwaitFetch (cursor s), s\<lparr>cursor := cursor s + 1\<rparr>)
      else (Returned, s))"

text \<open>Worker \<open>w\<close> throws: its promise rejects, and \<^verbatim>\<open>Promise.all\<close> keeps the first.\<close>

definition worker_throw ::
  "nat \<Rightarrow> 'id fanout_error \<Rightarrow> ('id, 'v) fanout \<Rightarrow> ('id, 'v) fanout" where
  "worker_throw w e s =
     s\<lparr>workers := (workers s)[w := Thrown e],
       rejected := (case rejected s of None \<Rightarrow> Some e | Some e0 \<Rightarrow> Some e0)\<rparr>"

text \<open>The promise worker \<open>w\<close> awaits settles, and the worker runs to its next \<^verbatim>\<open>await\<close>.\<close>

definition resume ::
  "('id \<times> 'v fetched) list \<Rightarrow> nat \<Rightarrow> ('id, 'v) fanout \<Rightarrow> ('id, 'v) fanout" where
  "resume tasks w s =
     (case workers s ! w of
        AwaitFetch i \<Rightarrow>
          (case snd (tasks ! i) of
             Rejected \<Rightarrow> worker_throw w FetchFailed s
           | Resolved resp \<Rightarrow>
               if \<not> ok resp then worker_throw w (FailedEvent (fst (tasks ! i))) s
               else s\<lparr>workers := (workers s)[w := AwaitJson i resp]\<rparr>)
      | AwaitJson i resp \<Rightarrow>
          (case json resp of
             None \<Rightarrow> worker_throw w JsonFailed s
           | Some v \<Rightarrow>
               (case worker_enter tasks (s\<lparr>results := (results s)[i := Some v]\<rparr>) of
                  (ws, s1) \<Rightarrow> s1\<lparr>workers := (workers s1)[w := ws]\<rparr>))
      | Returned \<Rightarrow> s
      | Thrown e \<Rightarrow> s)"

text \<open>\<^verbatim>\<open>Array.from({ length: n }, worker)\<close>: \<open>n\<close> calls of \<^verbatim>\<open>worker\<close>, one after the other.\<close>

fun spawn :: "nat \<Rightarrow> ('id \<times> 'v fetched) list \<Rightarrow> ('id, 'v) fanout \<Rightarrow> ('id, 'v) fanout" where
  "spawn 0 tasks s = s"
| "spawn (Suc n) tasks s =
     (case worker_enter tasks s of (ws, s1) \<Rightarrow> spawn n tasks (s1\<lparr>workers := workers s1 @ [ws]\<rparr>))"

definition fanout_start :: "nat \<Rightarrow> ('id \<times> 'v fetched) list \<Rightarrow> ('id, 'v) fanout" where
  "fanout_start K tasks =
     spawn (min K (length tasks)) tasks
       \<lparr>cursor = 0, results = replicate (length tasks) None, workers = [], rejected = None\<rparr>"

text \<open>
  The workers suspended at an \<^verbatim>\<open>await\<close>. The order in which their promises settle is
  not the program's to choose: a schedule is a list of numbers, each picking one of the
  suspended workers, so every list is an order of completion and every order is a list.
\<close>

fun awaiting :: "('id, 'v) worker_state \<Rightarrow> bool" where
  "awaiting (AwaitFetch i) = True"
| "awaiting (AwaitJson i resp) = True"
| "awaiting Returned = False"
| "awaiting (Thrown e) = False"

definition suspended :: "('id, 'v) fanout \<Rightarrow> nat list" where
  "suspended s = filter (\<lambda>w. awaiting (workers s ! w)) [0..<length (workers s)]"

fun fanout_run ::
  "('id \<times> 'v fetched) list \<Rightarrow> nat list \<Rightarrow> ('id, 'v) fanout \<Rightarrow> ('id, 'v) fanout" where
  "fanout_run tasks [] s = s"
| "fanout_run tasks (c # cs) s =
     (case suspended s of
        [] \<Rightarrow> s
      | w # ws \<Rightarrow> fanout_run tasks cs (resume tasks ((w # ws) ! (c mod length (w # ws))) s))"

text \<open>
  What the handler has done once the schedule is used up: \<^verbatim>\<open>await Promise.all(workers)\<close>
  has thrown, or has returned and \<^verbatim>\<open>reply.send(results)\<close> ran, or is still pending.
\<close>

datatype ('id, 'v) fanout_outcome = Pending | Sent "'v option list" | Threw "'id fanout_error"

definition all_returned :: "('id, 'v) fanout \<Rightarrow> bool" where
  "all_returned s = list_all (\<lambda>ws. ws = Returned) (workers s)"

definition fanout_outcome_of :: "('id, 'v) fanout \<Rightarrow> ('id, 'v) fanout_outcome" where
  "fanout_outcome_of s =
     (case rejected s of
        Some e \<Rightarrow> Threw e
      | None \<Rightarrow> if all_returned s then Sent (results s) else Pending)"

definition fanout_exec ::
  "nat \<Rightarrow> ('id \<times> 'v fetched) list \<Rightarrow> nat list \<Rightarrow> ('id, 'v) fanout" where
  "fanout_exec K tasks sched = fanout_run tasks sched (fanout_start K tasks)"

text \<open>The body a task's request ends with, when it has one.\<close>

definition task_result :: "'id \<times> 'v fetched \<Rightarrow> 'v option" where
  "task_result task =
     (case snd task of Rejected \<Rightarrow> None | Resolved resp \<Rightarrow> if ok resp then json resp else None)"

definition task_succeeds :: "'id \<times> 'v fetched \<Rightarrow> bool" where
  "task_succeeds task = (task_result task \<noteq> None)"

text \<open>The handler's own call: \<^verbatim>\<open>CONCURRENCY\<close> is fixed at 5.\<close>

definition getEventsByUserId_fanout ::
  "('id \<times> 'v fetched) list \<Rightarrow> nat list \<Rightarrow> ('id, 'v) fanout_outcome" where
  "getEventsByUserId_fanout tasks sched = fanout_outcome_of (fanout_exec CONCURRENCY tasks sched)"

subsection \<open>What holds between two steps of the fan-out\<close>

text \<open>
  A suspended worker holds the index it claimed. While every request succeeds, a
  worker's index is below the cursor, a worker waiting for \<^verbatim>\<open>resp.json()\<close> has the
  response of its own task, a worker has returned only if the cursor is at the end, and
  every index below the cursor is either stored with its task's result or still held.
  The work left is two steps for each unclaimed task and for each pending request, one
  for each pending body.
\<close>

fun holds :: "('id, 'v) worker_state \<Rightarrow> nat \<Rightarrow> bool" where
  "holds (AwaitFetch j) i = (j = i)"
| "holds (AwaitJson j resp) i = (j = i)"
| "holds Returned i = False"
| "holds (Thrown e) i = False"

fun weight :: "('id, 'v) worker_state \<Rightarrow> nat" where
  "weight (AwaitFetch i) = 2"
| "weight (AwaitJson i resp) = 1"
| "weight Returned = 0"
| "weight (Thrown e) = 0"

definition remaining :: "('id \<times> 'v fetched) list \<Rightarrow> ('id, 'v) fanout \<Rightarrow> nat" where
  "remaining tasks s = 2 * (length tasks - cursor s) + sum_list (map weight (workers s))"

fun worker_ok :: "('id \<times> 'v fetched) list \<Rightarrow> nat \<Rightarrow> ('id, 'v) worker_state \<Rightarrow> bool" where
  "worker_ok tasks c (AwaitFetch i) = (i < c)"
| "worker_ok tasks c (AwaitJson i resp) = (i < c \<and> snd (tasks ! i) = Resolved resp \<and> ok resp)"
| "worker_ok tasks c Returned = (c = length tasks)"
| "worker_ok tasks c (Thrown e) = False"

definition fanout_inv :: "nat \<Rightarrow> ('id \<times> 'v fetched) list \<Rightarrow> ('id, 'v) fanout \<Rightarrow> bool" where
  "fanout_inv K tasks s =
     (cursor s \<le> length tasks
      \<and> length (results s) = length tasks
      \<and> rejected s = None
      \<and> length (workers s) = min K (length tasks)
      \<and> (\<forall>w<length (workers s). worker_ok tasks (cursor s) (workers s ! w))
      \<and> (\<forall>i<cursor s. results s ! i = task_result (tasks ! i)
                       \<or> (\<exists>w<length (workers s). holds (workers s ! w) i)))"

section \<open>Properties of the circuit breaker\<close>

text \<open>
  C3. In \<open>HALF_OPEN\<close>, \<^verbatim>\<open>record(true)\<close> closes the breaker, empties the failure history
  and puts the cooldown back to its base value; \<^verbatim>\<open>record(false)\<close> opens it, sets the
  cooldown to the smaller of twice the previous cooldown and the maximum, plus a jitter
  that is not negative, and sets \<open>nextAttemptAt\<close> to now plus the new cooldown.
\<close>

theorem C3_half_open_record:
  assumes "state b = HALF_OPEN" and "0 \<le> rnd"
  shows "state (CB_record cfg t rnd True b) = CLOSED
       \<and> failures (CB_record cfg t rnd True b) = []
       \<and> cooldownMs (CB_record cfg t rnd True b) = CB_COOLDOWN_MS cfg
       \<and> state (CB_record cfg t rnd False b) = OPEN
       \<and> cooldownMs (CB_record cfg t rnd False b)
           = min (cooldownMs b * 2) maxCooldown + cooldown_jitter rnd
       \<and> 0 \<le> cooldown_jitter rnd
       \<and> nextAttemptAt (CB_record cfg t rnd False b)
           = t + cooldownMs (CB_record cfg t rnd False b)"
proof -
  have "0 \<le> rnd * 250" using assms(2) by simp
  then have "0 \<le> cooldown_jitter rnd" unfolding cooldown_jitter_def by simp
  then show ?thesis using assms(1) by (simp add: CB_record_def Let_def)
qed

theorem C3_half_open_record_witness:
  "state (CB_record default_config 50000 (1/2) True
            \<lparr>state = HALF_OPEN, failures = [10, 20, 30], nextAttemptAt = 15030,
             cooldownMs = 15000\<rparr>) = CLOSED
   \<and> cooldownMs (CB_record default_config 50000 (1/2) False
            \<lparr>state = HALF_OPEN, failures = [10, 20, 30], nextAttemptAt = 15030,
             cooldownMs = 15000\<rparr>) = 30125
   \<and> nextAttemptAt (CB_record default_config 50000 (1/2) False
            \<lparr>state = HALF_OPEN, failures = [10, 20, 30], nextAttemptAt = 15030,
             cooldownMs = 15000\<rparr>) = 80125"
  using C3_half_open_record
    [of "\<lparr>state = HALF_OPEN, failures = [10, 20, 30], nextAttemptAt = 15030,
          cooldownMs = 15000\<rparr>" "1/2" default_config 50000]
  by (simp add: maxCooldown_def cooldown_jitter_def)

text \<open>
  C5, as the code has it. \<^verbatim>\<open>record\<close> is not the only mutator: \<^verbatim>\<open>allowRequest\<close> writes
  \<open>state\<close>, and only when it moves an \<open>OPEN\<close> breaker whose cooldown has elapsed to
  \<open>HALF_OPEN\<close>. It never changes the failure timestamps, \<open>nextAttemptAt\<close> or the
  cooldown, and \<^verbatim>\<open>getState\<close> changes nothing.
\<close>

theorem C5_allowRequest_frame:
  "failures (snd (allowRequest t b)) = failures b
   \<and> nextAttemptAt (snd (allowRequest t b)) = nextAttemptAt b
   \<and> cooldownMs (snd (allowRequest t b)) = cooldownMs b
   \<and> state (snd (allowRequest t b))
       = (if state b = OPEN \<and> nextAttemptAt b \<le> t then HALF_OPEN else state b)
   \<and> snd (getState b) = b"
  by (simp add: allowRequest_def getState_def)

text \<open>
  C5 as stated fails: after three failures at 0, 1 and 2 ms the default breaker is
  \<open>OPEN\<close> until 15002, and the admission check at 15002 changes \<open>state\<close>.
\<close>

theorem C5_allowRequest_mutates_state:
  "state (run default_config [Record 0 0 False, Record 1 0 False, Record 2 0 False]
            (CB_init default_config)) = OPEN
   \<and> state (snd (allowRequest 15002
        (run default_config [Record 0 0 False, Record 1 0 False, Record 2 0 False]
            (CB_init default_config)))) = HALF_OPEN"
  by (simp add: CB_record_def allowRequest_def default_config_def CB_init_def Let_def)

lemma allowRequests_half_open:
  "state b = HALF_OPEN \<Longrightarrow>
   allowRequests ts b =
     (replicate (length ts) \<lparr>allowed = True, probe = False, retryAfter = 0\<rparr>, b)"
  by (induction ts) (simp_all add: allowRequest_def)

text \<open>
  C9. The admission check that takes the breaker from \<open>OPEN\<close> to \<open>HALF_OPEN\<close> is the
  only one answered with \<open>probe = true\<close>: however many checks follow it before the next
  \<^verbatim>\<open>record\<close>, and whenever they come, each is answered \<open>allowed = true, probe = false\<close>
  and leaves the breaker \<open>HALF_OPEN\<close>.
\<close>

theorem C9_single_probe:
  assumes "state b = OPEN" and "nextAttemptAt b \<le> t"
  shows "allowRequests (t # ts) b =
      (\<lparr>allowed = True, probe = True, retryAfter = 0\<rparr>
         # replicate (length ts) \<lparr>allowed = True, probe = False, retryAfter = 0\<rparr>,
       b\<lparr>state := HALF_OPEN\<rparr>)"
proof -
  have "allowRequest t b =
          (\<lparr>allowed = True, probe = True, retryAfter = 0\<rparr>, b\<lparr>state := HALF_OPEN\<rparr>)"
    using assms by (simp add: allowRequest_def)
  moreover have "state (b\<lparr>state := HALF_OPEN\<rparr>) = HALF_OPEN" by simp
  ultimately show ?thesis
    by (simp add: allowRequests_half_open)
qed

theorem C9_single_probe_witness:
  "map probe (fst (allowRequests [15002, 15002, 15003, 99999]
      \<lparr>state = OPEN, failures = [0, 1, 2], nextAttemptAt = 15002, cooldownMs = 15000\<rparr>))
     = [True, False, False, False]
   \<and> map allowed (fst (allowRequests [15002, 15002, 15003, 99999]
      \<lparr>state = OPEN, failures = [0, 1, 2], nextAttemptAt = 15002, cooldownMs = 15000\<rparr>))
     = [True, True, True, True]"
  using C9_single_probe
    [of "\<lparr>state = OPEN, failures = [0, 1, 2], nextAttemptAt = 15002, cooldownMs = 15000\<rparr>"
        15002 "[15002, 15003, 99999]"]
  by (simp add: numeral_3_eq_3)

lemma allowRequests_append:
  "allowRequests (xs @ ys) b =
     (case allowRequests xs b of (as, b1) \<Rightarrow>
        (case allowRequests ys b1 of (bs, b2) \<Rightarrow> (as @ bs, b2)))"
  by (induction xs arbitrary: b) (simp_all split: prod.splits)

lemma allowRequests_denied:
  assumes "state b = OPEN" and "\<forall>t\<in>set ts. t < nextAttemptAt b"
  shows "allowRequests ts b =
     (map (\<lambda>t. \<lparr>allowed = False, probe = False,
                 retryAfter = \<lceil>real_of_int (nextAttemptAt b - t) / 1000\<rceil>\<rparr>) ts, b)"
  using assms by (induction ts) (simp_all add: allowRequest_def)

lemma retryAfter_denied:
  "state b = OPEN \<Longrightarrow> t < nextAttemptAt b \<Longrightarrow>
   retryAfter (fst (allowRequest t b)) = \<lceil>real_of_int (nextAttemptAt b - t) / 1000\<rceil>"
  by (simp add: allowRequest_def)

lemma ceiling_thousandths_mono:
  fixes x y :: int
  assumes "y \<le> x"
  shows "\<lceil>real_of_int y / 1000\<rceil> \<le> \<lceil>real_of_int x / 1000\<rceil>"
  by (rule ceiling_mono) (use assms in simp)

lemma ceiling_thousandths_strict:
  fixes x y :: int
  assumes "y + 1000 \<le> x"
  shows "\<lceil>real_of_int y / 1000\<rceil> < \<lceil>real_of_int x / 1000\<rceil>"
proof -
  have "real_of_int y / 1000 + 1 \<le> real_of_int x / 1000"
    using assms by simp
  then have "\<lceil>real_of_int y / 1000 + 1\<rceil> \<le> \<lceil>real_of_int x / 1000\<rceil>"
    by (rule ceiling_mono)
  then show ?thesis by simp
qed

text \<open>
  C2, as the code has it. While the breaker is \<open>OPEN\<close>, every admission check before
  \<open>nextAttemptAt\<close> is denied with \<open>retryAfter = \<lceil>(nextAttemptAt - now) / 1000\<rceil>\<close> and leaves
  the breaker as it is, and the first check at or after \<open>nextAttemptAt\<close> moves it to
  \<open>HALF_OPEN\<close> and is admitted as the probe. Of two denied checks the later one's
  \<open>retryAfter\<close> is never larger than the earlier one's; it is strictly smaller when the
  later check comes at least one second after the earlier.
\<close>

theorem C2_open_admission:
  assumes "state b = OPEN"
    and "\<forall>t\<in>set ts. t < nextAttemptAt b"
    and "nextAttemptAt b \<le> t'"
  shows "allowRequests (ts @ [t']) b =
           (map (\<lambda>t. \<lparr>allowed = False, probe = False,
                       retryAfter = \<lceil>real_of_int (nextAttemptAt b - t) / 1000\<rceil>\<rparr>) ts
              @ [\<lparr>allowed = True, probe = True, retryAfter = 0\<rparr>],
            b\<lparr>state := HALF_OPEN\<rparr>)
       \<and> (\<forall>t1 t2. t1 \<le> t2 \<and> t2 < nextAttemptAt b \<longrightarrow>
             retryAfter (fst (allowRequest t2 b)) \<le> retryAfter (fst (allowRequest t1 b)))
       \<and> (\<forall>t1 t2. t1 + 1000 \<le> t2 \<and> t2 < nextAttemptAt b \<longrightarrow>
             retryAfter (fst (allowRequest t2 b)) < retryAfter (fst (allowRequest t1 b)))"
proof (intro conjI allI impI)
  have "allowRequest t' b =
          (\<lparr>allowed = True, probe = True, retryAfter = 0\<rparr>, b\<lparr>state := HALF_OPEN\<rparr>)"
    using assms(1,3) by (simp add: allowRequest_def)
  then show "allowRequests (ts @ [t']) b =
           (map (\<lambda>t. \<lparr>allowed = False, probe = False,
                       retryAfter = \<lceil>real_of_int (nextAttemptAt b - t) / 1000\<rceil>\<rparr>) ts
              @ [\<lparr>allowed = True, probe = True, retryAfter = 0\<rparr>],
            b\<lparr>state := HALF_OPEN\<rparr>)"
    by (simp add: allowRequests_append allowRequests_denied [OF assms(1,2)])
next
  fix t1 t2 assume h: "t1 \<le> t2 \<and> t2 < nextAttemptAt b"
  then have "nextAttemptAt b - t2 \<le> nextAttemptAt b - t1" by simp
  then have "\<lceil>real_of_int (nextAttemptAt b - t2) / 1000\<rceil>
               \<le> \<lceil>real_of_int (nextAttemptAt b - t1) / 1000\<rceil>"
    by (rule ceiling_thousandths_mono)
  moreover have "t1 < nextAttemptAt b" "t2 < nextAttemptAt b" using h by simp_all
  ultimately show "retryAfter (fst (allowRequest t2 b)) \<le> retryAfter (fst (allowRequest t1 b))"
    using assms(1) by (simp only: retryAfter_denied)
next
  fix t1 t2 assume h: "t1 + 1000 \<le> t2 \<and> t2 < nextAttemptAt b"
  then have "(nextAttemptAt b - t2) + 1000 \<le> nextAttemptAt b - t1" by simp
  then have "\<lceil>real_of_int (nextAttemptAt b - t2) / 1000\<rceil>
               < \<lceil>real_of_int (nextAttemptAt b - t1) / 1000\<rceil>"
    by (rule ceiling_thousandths_strict)
  moreover have "t1 < nextAttemptAt b" "t2 < nextAttemptAt b" using h by simp_all
  ultimately show "retryAfter (fst (allowRequest t2 b)) < retryAfter (fst (allowRequest t1 b))"
    using assms(1) by (simp only: retryAfter_denied)
qed

theorem C2_open_admission_witness:
  "map retryAfter (fst (allowRequests [100, 200, 14003, 15002]
      \<lparr>state = OPEN, failures = [0, 1, 2], nextAttemptAt = 15002, cooldownMs = 15000\<rparr>))
     = [15, 15, 1, 0]
   \<and> map allowed (fst (allowRequests [100, 200, 14003, 15002]
      \<lparr>state = OPEN, failures = [0, 1, 2], nextAttemptAt = 15002, cooldownMs = 15000\<rparr>))
     = [False, False, False, True]
   \<and> state (snd (allowRequests [100, 200, 14003, 15002]
      \<lparr>state = OPEN, failures = [0, 1, 2], nextAttemptAt = 15002, cooldownMs = 15000\<rparr>))
     = HALF_OPEN"
  using C2_open_admission
    [of "\<lparr>state = OPEN, failures = [0, 1, 2], nextAttemptAt = 15002, cooldownMs = 15000\<rparr>"
        "[100, 200, 14003]" 15002]
  by (simp add: allowRequest_def)

text \<open>
  C2 as stated fails: \<open>retryAfter\<close> is a whole number of seconds, so two denied checks
  100 ms apart get the same value.
\<close>

theorem C2_retryAfter_not_strict:
  "state (run default_config [Record 0 0 False, Record 1 0 False, Record 2 0 False]
            (CB_init default_config)) = OPEN
   \<and> (100::int) < 200
   \<and> 200 < nextAttemptAt (run default_config [Record 0 0 False, Record 1 0 False, Record 2 0 False]
            (CB_init default_config))
   \<and> \<not> retryAfter (fst (allowRequest 200
          (run default_config [Record 0 0 False, Record 1 0 False, Record 2 0 False]
            (CB_init default_config))))
       < retryAfter (fst (allowRequest 100
          (run default_config [Record 0 0 False, Record 1 0 False, Record 2 0 False]
            (CB_init default_config))))"
  by (simp add: CB_record_def allowRequest_def default_config_def CB_init_def Let_def)

lemma cooldown_jitter_range:
  assumes "0 \<le> rnd" and "rnd < 1"
  shows "0 \<le> cooldown_jitter rnd" and "cooldown_jitter rnd < 250"
proof -
  have "0 \<le> rnd * 250" using assms(1) by simp
  then show "0 \<le> cooldown_jitter rnd" unfolding cooldown_jitter_def by simp
  have "rnd * 250 < 250" using assms(2) by simp
  then show "cooldown_jitter rnd < 250" unfolding cooldown_jitter_def by (simp add: floor_less_iff)
qed

lemma cooldown_record_cases:
  "cooldownMs (CB_record cfg t rnd success b) =
     (if state b = HALF_OPEN then
        (if success then CB_COOLDOWN_MS cfg
         else min (cooldownMs b * 2) maxCooldown + cooldown_jitter rnd)
      else cooldownMs b)"
  by (simp add: CB_record_def Let_def)

lemma state_record_cases:
  "state (CB_record cfg t rnd success b) =
     (if state b = HALF_OPEN then (if success then CLOSED else OPEN)
      else if state b = CLOSED \<and>
              maxFailures cfg \<le> int (length (if \<not> success
                 then filter (\<lambda>ts. t - ts < windowMs cfg) (failures b) @ [t]
                 else filter (\<lambda>ts. t - ts < windowMs cfg) (failures b)))
           then OPEN
      else state b)"
  by (simp add: CB_record_def Let_def)

lemma cooldown_allowRequest: "cooldownMs (snd (allowRequest t b)) = cooldownMs b"
  by (simp add: allowRequest_def)

lemma cooldown_step_bounds:
  assumes base: "0 \<le> CB_COOLDOWN_MS cfg" "CB_COOLDOWN_MS cfg \<le> maxCooldown"
    and ok: "draws_ok op"
    and inv: "CB_COOLDOWN_MS cfg \<le> cooldownMs b" "cooldownMs b < maxCooldown + 250"
  shows "CB_COOLDOWN_MS cfg \<le> cooldownMs (step cfg op b)
       \<and> cooldownMs (step cfg op b) < maxCooldown + 250"
proof (cases op)
  case (Record t rnd success)
  then have r: "0 \<le> cooldown_jitter rnd" "cooldown_jitter rnd < 250"
    using ok cooldown_jitter_range by simp_all
  show ?thesis
    using base inv r by (simp add: Record cooldown_record_cases min_def)
next
  case (AllowRequest t)
  then show ?thesis using inv by (simp add: cooldown_allowRequest)
next
  case GetState
  then show ?thesis using inv by (simp add: getState_def)
qed

lemma cooldown_run_bounds:
  assumes "0 \<le> CB_COOLDOWN_MS cfg" and "CB_COOLDOWN_MS cfg \<le> maxCooldown"
    and "list_all draws_ok ops"
    and "CB_COOLDOWN_MS cfg \<le> cooldownMs b" and "cooldownMs b < maxCooldown + 250"
  shows "CB_COOLDOWN_MS cfg \<le> cooldownMs (run cfg ops b)
       \<and> cooldownMs (run cfg ops b) < maxCooldown + 250"
  using assms(3-5)
proof (induction ops arbitrary: b)
  case Nil
  then show ?case by simp
next
  case (Cons op ops)
  have "CB_COOLDOWN_MS cfg \<le> cooldownMs (step cfg op b)
       \<and> cooldownMs (step cfg op b) < maxCooldown + 250"
    using cooldown_step_bounds [OF assms(1,2)] Cons.prems by simp
  then show ?case using Cons.IH Cons.prems(1) by simp
qed

text \<open>
  C4, as the code has it. Take a base cooldown between 0 and the maximum and any history
  of breaker calls from the initial state. The cooldown is then never below the base and
  always below the maximum plus the jitter bound of 250 ms (the jitter is added after the
  cap, so the maximum itself can be exceeded). It changes only when a probe's outcome is
  recorded in \<open>HALF_OPEN\<close>. A failed probe sets it to \<open>min (2 * previous) maximum\<close> plus a
  jitter in \<open>[0, 250)\<close>: without the jitter that is at most the maximum, and twice the
  previous value as long as the double does not pass the maximum; with it, the cooldown
  does not decrease provided the previous one was at most the maximum. Every move into
  \<open>CLOSED\<close> from another state puts it back to the base.
\<close>

theorem C4_cooldown_history:
  assumes "0 \<le> CB_COOLDOWN_MS cfg" and "CB_COOLDOWN_MS cfg \<le> maxCooldown"
    and "list_all draws_ok ops" and "draws_ok op"
    and "b = run cfg ops (CB_init cfg)"
  shows "CB_COOLDOWN_MS cfg \<le> cooldownMs b \<and> cooldownMs b < maxCooldown + 250
       \<and> (state b = HALF_OPEN \<and> op = Record t rnd False \<longrightarrow>
            cooldownMs (step cfg op b) - cooldown_jitter rnd
              = min (2 * cooldownMs b) maxCooldown
            \<and> 0 \<le> cooldown_jitter rnd \<and> cooldown_jitter rnd < 250
            \<and> (cooldownMs b \<le> maxCooldown \<longrightarrow> cooldownMs b \<le> cooldownMs (step cfg op b)))
       \<and> (state (step cfg op b) = CLOSED \<and> state b \<noteq> CLOSED \<longrightarrow>
            cooldownMs (step cfg op b) = CB_COOLDOWN_MS cfg)
       \<and> (\<not> (state b = HALF_OPEN \<and> (\<exists>t' rnd' s. op = Record t' rnd' s)) \<longrightarrow>
            cooldownMs (step cfg op b) = cooldownMs b)"
proof -
  have bounds: "CB_COOLDOWN_MS cfg \<le> cooldownMs b \<and> cooldownMs b < maxCooldown + 250"
    unfolding assms(5)
    by (rule cooldown_run_bounds [OF assms(1-3)])
       (use assms(2) in \<open>simp_all add: CB_init_def maxCooldown_def\<close>)
  have probe: "cooldownMs (step cfg op b) - cooldown_jitter rnd = min (2 * cooldownMs b) maxCooldown
            \<and> 0 \<le> cooldown_jitter rnd \<and> cooldown_jitter rnd < 250
            \<and> (cooldownMs b \<le> maxCooldown \<longrightarrow> cooldownMs b \<le> cooldownMs (step cfg op b))"
    if h: "state b = HALF_OPEN \<and> op = Record t rnd False"
  proof -
    have r: "0 \<le> cooldown_jitter rnd" "cooldown_jitter rnd < 250"
      using assms(4) h cooldown_jitter_range by simp_all
    have "0 \<le> cooldownMs b" using bounds assms(1) by simp
    then show ?thesis using h r by (simp add: cooldown_record_cases min_def mult.commute)
  qed
  have reset: "cooldownMs (step cfg op b) = CB_COOLDOWN_MS cfg"
    if h: "state (step cfg op b) = CLOSED \<and> state b \<noteq> CLOSED"
  proof (cases op)
    case (Record t' rnd' s)
    then show ?thesis using h
      by (simp add: cooldown_record_cases state_record_cases split: if_splits)
  next
    case (AllowRequest t')
    then show ?thesis using h by (simp add: allowRequest_def split: if_splits)
  next
    case GetState
    then show ?thesis using h by (simp add: getState_def)
  qed
  have frame: "cooldownMs (step cfg op b) = cooldownMs b"
    if h: "\<not> (state b = HALF_OPEN \<and> (\<exists>t' rnd' s. op = Record t' rnd' s))"
  proof (cases op)
    case (Record t' rnd' s)
    then show ?thesis using h by (simp add: cooldown_record_cases)
  next
    case (AllowRequest t')
    then show ?thesis by (simp add: cooldown_allowRequest)
  next
    case GetState
    then show ?thesis by (simp add: getState_def)
  qed
  show ?thesis using bounds probe reset frame by blast
qed

text \<open>
  C4 as stated fails. With the default configuration three failed probes in a row take
  the cooldown from 15000 to 30200, 60600 and 120200, which is above the maximum of
  120000 and less than twice 60600; a fourth failed probe with jitter 0 then lowers it
  to 120000: lower than before, and far from twice the previous cooldown.
\<close>

theorem C4_cooldown_exceeds_and_shrinks:
  "state (run default_config
          [Record 0 0 False, Record 1 0 False, Record 2 0 False,
           AllowRequest 20000, Record 20000 (4/5) False,
           AllowRequest 60000, Record 60000 (4/5) False,
           AllowRequest 130000, Record 130000 (4/5) False,
           AllowRequest 260000] (CB_init default_config)) = HALF_OPEN
   \<and> maxCooldown < cooldownMs (run default_config
          [Record 0 0 False, Record 1 0 False, Record 2 0 False,
           AllowRequest 20000, Record 20000 (4/5) False,
           AllowRequest 60000, Record 60000 (4/5) False,
           AllowRequest 130000, Record 130000 (4/5) False,
           AllowRequest 260000] (CB_init default_config))
   \<and> cooldownMs (CB_record default_config 260000 0 False (run default_config
          [Record 0 0 False, Record 1 0 False, Record 2 0 False,
           AllowRequest 20000, Record 20000 (4/5) False,
           AllowRequest 60000, Record 60000 (4/5) False,
           AllowRequest 130000, Record 130000 (4/5) False,
           AllowRequest 260000] (CB_init default_config)))
     < cooldownMs (run default_config
          [Record 0 0 False, Record 1 0 False, Record 2 0 False,
           AllowRequest 20000, Record 20000 (4/5) False,
           AllowRequest 60000, Record 60000 (4/5) False,
           AllowRequest 130000, Record 130000 (4/5) False,
           AllowRequest 260000] (CB_init default_config))
   \<and> cooldownMs (CB_record default_config 260000 0 False (run default_config
          [Record 0 0 False, Record 1 0 False, Record 2 0 False,
           AllowRequest 20000, Record 20000 (4/5) False,
           AllowRequest 60000, Record 60000 (4/5) False,
           AllowRequest 130000, Record 130000 (4/5) False,
           AllowRequest 260000] (CB_init default_config))) - cooldown_jitter 0
     < 2 * cooldownMs (run default_config
          [Record 0 0 False, Record 1 0 False, Record 2 0 False,
           AllowRequest 20000, Record 20000 (4/5) False,
           AllowRequest 60000, Record 60000 (4/5) False,
           AllowRequest 130000, Record 130000 (4/5) False,
           AllowRequest 260000] (CB_init default_config))"
  by (simp add: CB_record_def allowRequest_def default_config_def CB_init_def Let_def
        maxCooldown_def cooldown_jitter_def)

theorem C4_cooldown_history_witness:
  "cooldownMs (run default_config
          [Record 0 0 False, Record 1 0 False, Record 2 0 False, AllowRequest 20000]
          (CB_init default_config)) = 15000
   \<and> cooldownMs (step default_config (Record 20000 (4/5) False) (run default_config
          [Record 0 0 False, Record 1 0 False, Record 2 0 False, AllowRequest 20000]
          (CB_init default_config))) - cooldown_jitter (4/5) = 30000
   \<and> cooldownMs (step default_config (Record 20000 (4/5) False) (run default_config
          [Record 0 0 False, Record 1 0 False, Record 2 0 False, AllowRequest 20000]
          (CB_init default_config))) = 30200"
  using C4_cooldown_history [of default_config
      "[Record 0 0 False, Record 1 0 False, Record 2 0 False, AllowRequest 20000]"
      "Record 20000 (4/5) False"
      "run default_config
          [Record 0 0 False, Record 1 0 False, Record 2 0 False, AllowRequest 20000]
          (CB_init default_config)" 20000 "4/5"]
  by (simp add: CB_record_def allowRequest_def default_config_def CB_init_def Let_def
        maxCooldown_def cooldown_jitter_def)

lemma filter_window_twice:
  fixes t1 t2 w :: int
  assumes "t1 \<le> t2"
  shows "filter (\<lambda>ts. t2 - ts < w) (filter (\<lambda>ts. t1 - ts < w) xs) = filter (\<lambda>ts. t2 - ts < w) xs"
  using assms by (induction xs) auto

lemma failures_younger_than_window_append:
  "failures_younger_than_window cfg t (xs @ ys) = failures_younger_than_window cfg t xs + failures_younger_than_window cfg t ys"
  by (simp add: failures_younger_than_window_def)

lemma failures_younger_than_window_evicted:
  assumes "t1 \<le> t2"
  shows "failures_younger_than_window cfg t2 (filter (\<lambda>ts. t1 - ts < windowMs cfg) xs)
       = failures_younger_than_window cfg t2 xs"
  unfolding failures_younger_than_window_def by (simp only: filter_window_twice [OF assms])

lemma record_all_open:
  "state b = OPEN \<Longrightarrow> state (record_all cfg cs b) = OPEN"
  by (induction cs arbitrary: b) (simp_all add: state_record_cases)

text \<open>The list of timestamps \<^verbatim>\<open>record\<close> holds after the eviction and the push.\<close>

lemma failures_record_closed:
  assumes "state b \<noteq> HALF_OPEN"
  shows "failures (CB_record cfg t rnd success b)
       = filter (\<lambda>ts. t - ts < windowMs cfg) (failures b) @ (if success then [] else [t])"
  using assms by (simp add: CB_record_def Let_def)

lemma record_closed_count:
  assumes "0 < windowMs cfg"
  shows "length (filter (\<lambda>ts. t - ts < windowMs cfg) (failures b) @ (if success then [] else [t]))
       = failures_younger_than_window cfg t (failures b @ (if success then [] else [t]))"
  using assms by (simp add: failures_younger_than_window_def)

lemma state_record_closed:
  assumes "state b = CLOSED" and "0 < windowMs cfg"
  shows "state (CB_record cfg t rnd success b)
       = (if maxFailures cfg
               \<le> int (failures_younger_than_window cfg t (failures b @ (if success then [] else [t])))
          then OPEN else CLOSED)"
proof -
  have "(if \<not> success then filter (\<lambda>ts. t - ts < windowMs cfg) (failures b) @ [t]
         else filter (\<lambda>ts. t - ts < windowMs cfg) (failures b))
      = filter (\<lambda>ts. t - ts < windowMs cfg) (failures b) @ (if success then [] else [t])"
    by simp
  then show ?thesis
    using assms(1) record_closed_count [OF assms(2), of t b success]
    by (simp only: state_record_cases) simp
qed

lemma reaches_threshold_first:
  "reaches_threshold cfg fs0 (c # cs) (Suc 0)
   = (maxFailures cfg
        \<le> int (failures_younger_than_window cfg (call_now c)
                 (fs0 @ (if call_success c then [] else [call_now c]))))"
  by (simp add: reaches_threshold_def failure_times_def)

lemma reaches_threshold_later:
  assumes "0 < k" and "k \<le> length cs" and "sorted (map call_now (c # cs))"
  shows "reaches_threshold cfg fs0 (c # cs) (Suc k)
       = reaches_threshold cfg
           (filter (\<lambda>ts. call_now c - ts < windowMs cfg) fs0
              @ (if call_success c then [] else [call_now c])) cs k"
proof -
  have "cs ! (k - 1) \<in> set cs"
    using assms(1,2) by simp
  then have le: "call_now c \<le> call_now (cs ! (k - 1))"
    using assms(3) by auto
  have nth: "(c # cs) ! (Suc k - 1) = cs ! (k - 1)"
    using assms(1) by (cases k) simp_all
  have ft: "failure_times (take (Suc k) (c # cs))
          = (if call_success c then [] else [call_now c]) @ failure_times (take k cs)"
    by (simp add: failure_times_def)
  have "failures_younger_than_window cfg (call_now (cs ! (k - 1)))
          (fs0 @ (if call_success c then [] else [call_now c]) @ failure_times (take k cs))
      = failures_younger_than_window cfg (call_now (cs ! (k - 1)))
          ((filter (\<lambda>ts. call_now c - ts < windowMs cfg) fs0
              @ (if call_success c then [] else [call_now c])) @ failure_times (take k cs))"
    by (simp only: failures_younger_than_window_append failures_younger_than_window_evicted [OF le] add.assoc)
  then show ?thesis
    unfolding reaches_threshold_def nth ft by (rule arg_cong)
qed

lemma ex_interval_Cons:
  "(\<exists>k\<in>{1..Suc n}. P k) = (P (Suc 0) \<or> (\<exists>k\<in>{1..n}. P (Suc k)))"
proof
  assume "\<exists>k\<in>{1..Suc n}. P k"
  then obtain k where k: "1 \<le> k" "k \<le> Suc n" "P k" by auto
  show "P (Suc 0) \<or> (\<exists>k\<in>{1..n}. P (Suc k))"
  proof (cases "k = 1")
    case True
    then show ?thesis using k by simp
  next
    case False
    then obtain j where "k = Suc j" "1 \<le> j" "j \<le> n" using k by (cases k) auto
    then show ?thesis using k by auto
  qed
next
  assume "P (Suc 0) \<or> (\<exists>k\<in>{1..n}. P (Suc k))"
  then show "\<exists>k\<in>{1..Suc n}. P k"
  proof
    assume "P (Suc 0)"
    then show ?thesis by (intro bexI [of _ "Suc 0"]) simp_all
  next
    assume "\<exists>k\<in>{1..n}. P (Suc k)"
    then obtain k where "1 \<le> k" "k \<le> n" "P (Suc k)" by auto
    then show ?thesis by (intro bexI [of _ "Suc k"]) simp_all
  qed
qed

lemma record_all_closed:
  assumes "state b = CLOSED" and "sorted (map call_now cs)" and "0 < windowMs cfg"
  shows "(state (record_all cfg cs b) = OPEN
            \<longleftrightarrow> (\<exists>k\<in>{1..length cs}. reaches_threshold cfg (failures b) cs k))
       \<and> (state (record_all cfg cs b) \<noteq> OPEN \<longrightarrow> state (record_all cfg cs b) = CLOSED)"
  using assms(1,2)
proof (induction cs arbitrary: b)
  case Nil
  then show ?case by simp
next
  case (Cons c cs)
  let ?b1 = "CB_record cfg (call_now c) (call_random c) (call_success c) b"
  let ?first = "reaches_threshold cfg (failures b) (c # cs) (Suc 0)"
  have st: "state ?b1 = (if ?first then OPEN else CLOSED)"
    using state_record_closed [OF Cons.prems(1) assms(3)]
    by (simp only: reaches_threshold_first)
  have split: "(\<exists>k\<in>{1..length (c # cs)}. reaches_threshold cfg (failures b) (c # cs) k)
      = (?first \<or> (\<exists>k\<in>{1..length cs}. reaches_threshold cfg (failures b) (c # cs) (Suc k)))"
    using ex_interval_Cons [of "length cs" "reaches_threshold cfg (failures b) (c # cs)"]
    by simp
  show ?case
  proof (cases ?first)
    case True
    then have "state ?b1 = OPEN" using st by simp
    then have "state (record_all cfg (c # cs) b) = OPEN"
      by (simp add: record_all_open)
    then show ?thesis using True split by simp
  next
    case False
    then have closed: "state ?b1 = CLOSED" using st by simp
    have fs: "failures ?b1
        = filter (\<lambda>ts. call_now c - ts < windowMs cfg) (failures b)
            @ (if call_success c then [] else [call_now c])"
      using Cons.prems(1) by (simp add: failures_record_closed)
    have sorted_tl: "sorted (map call_now cs)" using Cons.prems(2) by simp
    have later: "reaches_threshold cfg (failures b) (c # cs) (Suc k)
               = reaches_threshold cfg (failures ?b1) cs k" if "k \<in> {1..length cs}" for k
      using that reaches_threshold_later [OF _ _ Cons.prems(2), of k cfg "failures b"]
      by (simp add: fs)
    have ih: "(state (record_all cfg cs ?b1) = OPEN
            \<longleftrightarrow> (\<exists>k\<in>{1..length cs}. reaches_threshold cfg (failures ?b1) cs k))
       \<and> (state (record_all cfg cs ?b1) \<noteq> OPEN \<longrightarrow> state (record_all cfg cs ?b1) = CLOSED)"
      by (rule Cons.IH [OF closed sorted_tl])
    have "(\<exists>k\<in>{1..length cs}. reaches_threshold cfg (failures b) (c # cs) (Suc k))
        = (\<exists>k\<in>{1..length cs}. reaches_threshold cfg (failures ?b1) cs k)"
      using later by blast
    then show ?thesis using ih False split by simp
  qed
qed


lemma record_all_never_half_open:
  "state b \<noteq> HALF_OPEN \<Longrightarrow> state (record_all cfg cs b) \<noteq> HALF_OPEN"
  by (induction cs arbitrary: b) (simp_all add: state_record_cases)

text \<open>What a single \<^verbatim>\<open>record\<close> call on a \<open>CLOSED\<close> breaker decides, for any clock and window.\<close>

lemma state_record_closed_kept:
  assumes "state b = CLOSED"
  shows "state (CB_record cfg t rnd success b) = OPEN
     \<longleftrightarrow> maxFailures cfg
           \<le> int (failures_younger_than_window cfg t (failures b) + (if success then 0 else 1))"
  using assms by (simp add: state_record_cases failures_younger_than_window_def)

text \<open>
  C1, as the code has it. A \<^verbatim>\<open>record\<close> call on a \<open>CLOSED\<close> breaker evicts the timestamps
  that are \<open>windowMs\<close> old or older (one exactly \<open>windowMs\<close> old goes too), and the breaker
  opens exactly when the timestamps kept, plus the failure just recorded, number at
  least the threshold; this holds at every call, whatever the clock and the window.
  Over a list of calls whose clock readings do not go backwards, with a positive window,
  the breaker is \<open>OPEN\<close> afterwards exactly when at one of the calls all the failures
  recorded so far that were less than \<open>windowMs\<close> old reached the threshold. After the
  calls the breaker is \<open>OPEN\<close> or still \<open>CLOSED\<close>. A \<^verbatim>\<open>record(true)\<close> on the \<open>CLOSED\<close>
  breaker keeps every timestamp less than \<open>windowMs\<close> old: it only ages the history. And
  after every \<^verbatim>\<open>record\<close> call, in any state, no timestamp that is \<open>windowMs\<close> old or
  older is left, but possibly the one just pushed.
\<close>

theorem C1_closed_failure_window:
  assumes "state b = CLOSED"
  shows "(state (CB_record cfg t rnd success b) = OPEN
            \<longleftrightarrow> maxFailures cfg
                  \<le> int (failures_younger_than_window cfg t (failures b)
                          + (if success then 0 else 1)))
       \<and> (sorted (map call_now cs) \<and> 0 < windowMs cfg \<longrightarrow>
            (state (record_all cfg cs b) = OPEN
               \<longleftrightarrow> (\<exists>k\<in>{1..length cs}. reaches_threshold cfg (failures b) cs k)))
       \<and> (state (record_all cfg cs b) = OPEN \<or> state (record_all cfg cs b) = CLOSED)
       \<and> failures (CB_record cfg t rnd True b)
           = filter (\<lambda>ts. t - ts < windowMs cfg) (failures b)
       \<and> (\<forall>ts\<in>set (failures (CB_record cfg t rnd success b')).
            t - ts < windowMs cfg \<or> ts = t)"
proof -
  have call: "state (CB_record cfg t rnd success b) = OPEN
            \<longleftrightarrow> maxFailures cfg
                  \<le> int (failures_younger_than_window cfg t (failures b)
                          + (if success then 0 else 1))"
    by (rule state_record_closed_kept [OF assms])
  have calls: "state (record_all cfg cs b) = OPEN
               \<longleftrightarrow> (\<exists>k\<in>{1..length cs}. reaches_threshold cfg (failures b) cs k)"
    if "sorted (map call_now cs) \<and> 0 < windowMs cfg"
    using record_all_closed [OF assms, of cs cfg] that by blast
  have "state (record_all cfg cs b) \<noteq> HALF_OPEN"
    using assms by (intro record_all_never_half_open) simp
  then have after: "state (record_all cfg cs b) = OPEN \<or> state (record_all cfg cs b) = CLOSED"
    by (cases "state (record_all cfg cs b)") simp_all
  have aged: "failures (CB_record cfg t rnd True b)
           = filter (\<lambda>ts. t - ts < windowMs cfg) (failures b)"
    using assms by (simp add: failures_record_closed)
  have evicted: "\<forall>ts\<in>set (failures (CB_record cfg t rnd success b')).
            t - ts < windowMs cfg \<or> ts = t"
    by (auto simp add: CB_record_def Let_def)
  show ?thesis
    using call calls after aged evicted by blast
qed

theorem C1_closed_failure_window_witness:
  "state (record_all default_config
            [RecordCall 0 0 False, RecordCall 10000 0 False, RecordCall 20000 0 True,
             RecordCall 29000 0 False] (CB_init default_config)) = OPEN
   \<and> failures (CB_record default_config 20000 0 True (CB_init default_config)) = []"
proof -
  let ?cs = "[RecordCall 0 0 False, RecordCall 10000 0 False, RecordCall 20000 0 True,
             RecordCall 29000 0 False]"
  have closed: "state (CB_init default_config) = CLOSED"
    by (simp add: CB_init_def)
  have clock: "sorted (map call_now ?cs)"
    by simp
  have window: "0 < windowMs default_config"
    by (simp add: default_config_def)
  have "reaches_threshold default_config (failures (CB_init default_config)) ?cs 4"
    by (simp add: reaches_threshold_def failures_younger_than_window_def failure_times_def
          default_config_def CB_init_def)
  then have reached: "\<exists>k\<in>{1..length ?cs}. reaches_threshold default_config
                (failures (CB_init default_config)) ?cs k"
    by (intro bexI [of _ 4]) simp_all
  have aged: "filter (\<lambda>ts. 20000 - ts < windowMs default_config)
                (failures (CB_init default_config)) = []"
    by (simp add: CB_init_def)
  show ?thesis
    using C1_closed_failure_window
            [OF closed, of default_config 20000 0 True ?cs "CB_init default_config"]
          clock window reached
    unfolding aged by blast
qed

text \<open>
  C1 as stated fails at the edge of the window. With the default window of 30000 ms and
  threshold of 3, record failures at 0, 1 and 30000 ms. At the third call the timestamp
  0 is exactly as old as the window, not older, so by the claim all three failures are
  within the trailing window and the breaker should open. The code has already dropped
  the timestamp 0, holds two timestamps and stays \<open>CLOSED\<close>.
\<close>

theorem C1_boundary_timestamp_evicted:
  "\<not> windowMs default_config < 30000 - 0
   \<and> maxFailures default_config
       \<le> int (failures_in_window default_config 30000
                (failure_times
                   [RecordCall 0 0 False, RecordCall 1 0 False, RecordCall 30000 0 False]))
   \<and> state (record_all default_config
              [RecordCall 0 0 False, RecordCall 1 0 False, RecordCall 30000 0 False]
              (CB_init default_config)) = CLOSED
   \<and> failures (record_all default_config
              [RecordCall 0 0 False, RecordCall 1 0 False, RecordCall 30000 0 False]
              (CB_init default_config)) = [1, 30000]"
  by (simp add: CB_record_def Let_def default_config_def CB_init_def
        failures_in_window_def failure_times_def)

section \<open>Properties of the retry loop\<close>

lemma retries_empty [simp]: "retries baseMs rnd i i = []"
  by (simp add: retries_def)

lemma retries_first:
  "i < k \<Longrightarrow> retries baseMs rnd i k
     = [Fetch i, Sleep (backoff baseMs i (rnd i))] @ retries baseMs rnd (Suc i) k"
  by (simp add: retries_def upt_conv_Cons)

lemma waits_append: "waits (xs @ ys) = waits xs @ waits ys"
  by (induction xs rule: waits.induct) simp_all

lemma attempts_append: "attempts (xs @ ys) = attempts xs + attempts ys"
  by (induction xs rule: attempts.induct) simp_all

lemma waits_retries:
  "waits (retries baseMs rnd i k) = map (\<lambda>j. backoff baseMs j (rnd j)) [i..<k]"
  by (induction k) (simp_all add: retries_def waits_append)

lemma attempts_retries: "attempts (retries baseMs rnd i k) = k - i"
  by (induction k) (simp_all add: retries_def attempts_append Suc_diff_le)

text \<open>One pass through the loop body when the attempt is retried.\<close>

lemma loop_retry_step:
  assumes "retryable (fetch i)" and "int i < max_attempts"
  shows "postWithRetry_loop max_attempts baseMs fetch rnd i lastErr effs
       = postWithRetry_loop max_attempts baseMs fetch rnd (Suc i)
           (Some (Upstream (status_of (fetch i))))
           (effs @ [Fetch i, Sleep (backoff baseMs i (rnd i))])"
  using assms
  by (subst postWithRetry_loop.simps)
     (auto simp add: retryable_def status_of_def split: fetched.splits)

text \<open>The loop runs through a stretch of retried attempts.\<close>

lemma loop_retries:
  assumes "\<forall>j. i \<le> j \<and> j < k \<longrightarrow> retryable (fetch j)" and "i \<le> k" and "int k \<le> max_attempts"
  shows "postWithRetry_loop max_attempts baseMs fetch rnd i lastErr effs
       = postWithRetry_loop max_attempts baseMs fetch rnd k
           (if i < k then Some (Upstream (status_of (fetch (k - 1)))) else lastErr)
           (effs @ retries baseMs rnd i k)"
  using assms
proof (induction "k - i" arbitrary: i lastErr effs)
  case 0
  then show ?case by simp
next
  case (Suc n)
  then have lt: "i < k" by simp
  have step: "postWithRetry_loop max_attempts baseMs fetch rnd i lastErr effs
       = postWithRetry_loop max_attempts baseMs fetch rnd (Suc i)
           (Some (Upstream (status_of (fetch i))))
           (effs @ [Fetch i, Sleep (backoff baseMs i (rnd i))])"
    using Suc.prems lt by (intro loop_retry_step) auto
  have rest: "postWithRetry_loop max_attempts baseMs fetch rnd (Suc i)
           (Some (Upstream (status_of (fetch i))))
           (effs @ [Fetch i, Sleep (backoff baseMs i (rnd i))])
       = postWithRetry_loop max_attempts baseMs fetch rnd k
           (if Suc i < k then Some (Upstream (status_of (fetch (k - 1))))
            else Some (Upstream (status_of (fetch i))))
           ((effs @ [Fetch i, Sleep (backoff baseMs i (rnd i))]) @ retries baseMs rnd (Suc i) k)"
    using Suc.prems Suc.hyps(2) lt by (intro Suc.hyps(1)) auto
  have last: "(if Suc i < k then Some (Upstream (status_of (fetch (k - 1))))
            else Some (Upstream (status_of (fetch i))))
          = Some (Upstream (status_of (fetch (k - 1))))"
  proof (cases "Suc i < k")
    case True
    then show ?thesis by simp
  next
    case False
    then have "k - 1 = i" using lt by simp
    then show ?thesis using False by simp
  qed
  show ?case
    unfolding step rest last using lt by (simp add: retries_first)
qed

text \<open>Every attempt is retried: the loop leaves through its end and throws \<^verbatim>\<open>lastErr\<close>.\<close>

lemma postWithRetry_exhausted:
  assumes "\<forall>j. int j < max_attempts \<longrightarrow> retryable (fetch j)" and "1 \<le> max_attempts"
  shows "postWithRetry max_attempts baseMs fetch rnd
       = (Inl (Upstream (status_of (fetch (nat max_attempts - 1)))),
          retries baseMs rnd 0 (nat max_attempts))"
proof -
  have "postWithRetry_loop max_attempts baseMs fetch rnd 0 None []
      = postWithRetry_loop max_attempts baseMs fetch rnd (nat max_attempts)
          (if 0 < nat max_attempts then Some (Upstream (status_of (fetch (nat max_attempts - 1))))
           else None)
          ([] @ retries baseMs rnd 0 (nat max_attempts))"
    using assms by (intro loop_retries) auto
  also have "\<dots> = (Inl (Upstream (status_of (fetch (nat max_attempts - 1)))),
          retries baseMs rnd 0 (nat max_attempts))"
    using assms(2) by (subst postWithRetry_loop.simps) simp
  finally show ?thesis by (simp add: postWithRetry_def)
qed

text \<open>Attempts \<open>0, \<dots>, k - 1\<close> are retried and attempt \<open>k\<close> is not.\<close>

lemma postWithRetry_stops:
  assumes "\<forall>j. j < k \<longrightarrow> retryable (fetch j)" and "int k < max_attempts"
    and "\<not> retryable (fetch k)"
  shows "postWithRetry max_attempts baseMs fetch rnd
       = ((case fetch k of
             Rejected \<Rightarrow> Inl FetchRejected
           | Resolved resp \<Rightarrow> if ok resp then Inr resp else Inl (Upstream (status resp))),
          retries baseMs rnd 0 k @ [Fetch k])"
proof -
  have "postWithRetry_loop max_attempts baseMs fetch rnd 0 None []
      = postWithRetry_loop max_attempts baseMs fetch rnd k
          (if 0 < k then Some (Upstream (status_of (fetch (k - 1)))) else None)
          ([] @ retries baseMs rnd 0 k)"
    using assms(1,2) by (intro loop_retries) auto
  also have "\<dots> = ((case fetch k of
             Rejected \<Rightarrow> Inl FetchRejected
           | Resolved resp \<Rightarrow> if ok resp then Inr resp else Inl (Upstream (status resp))),
          retries baseMs rnd 0 k @ [Fetch k])"
    using assms(2,3)
    by (subst postWithRetry_loop.simps) (auto simp add: retryable_def split: fetched.splits)
  finally show ?thesis by (simp add: postWithRetry_def)
qed

lemma backoff_jitter_range:
  assumes "0 \<le> rnd" and "rnd < 1"
  shows "0 \<le> \<lfloor>rnd * 50\<rfloor>" and "\<lfloor>rnd * 50\<rfloor> < 50"
proof -
  have "0 \<le> rnd * 50" using assms(1) by simp
  then show "0 \<le> \<lfloor>rnd * 50\<rfloor>" by simp
  have "rnd * 50 < 50" using assms(2) by simp
  then show "\<lfloor>rnd * 50\<rfloor> < 50" by (simp add: floor_less_iff)
qed

text \<open>
  C7. With \<open>maxAttempts = 3\<close> and base delay \<open>b\<close>, when attempts 0 and 1 fail with a
  retryable status and attempt 2 succeeds, the call returns that response after exactly
  two timers, the first of \<open>b * 2^0\<close> plus jitter and the second of \<open>b * 2^1\<close> plus
  jitter, each jitter a whole number of milliseconds from 0 up to, not including, 50.
\<close>

theorem C7_two_retries_then_success:
  assumes "retryable (fetch 0)" and "retryable (fetch 1)"
    and "fetch 2 = Resolved resp" and "ok resp"
    and "\<forall>k. 0 \<le> rnd k \<and> rnd k < 1"
  shows "fst (postWithRetry 3 b fetch rnd) = Inr resp
       \<and> waits (snd (postWithRetry 3 b fetch rnd))
           = [b * 2 ^ 0 + \<lfloor>rnd 0 * 50\<rfloor>, b * 2 ^ 1 + \<lfloor>rnd 1 * 50\<rfloor>]
       \<and> 0 \<le> \<lfloor>rnd 0 * 50\<rfloor> \<and> \<lfloor>rnd 0 * 50\<rfloor> < 50
       \<and> 0 \<le> \<lfloor>rnd 1 * 50\<rfloor> \<and> \<lfloor>rnd 1 * 50\<rfloor> < 50
       \<and> snd (postWithRetry 3 b fetch rnd)
           = [Fetch 0, Sleep (b * 2 ^ 0 + \<lfloor>rnd 0 * 50\<rfloor>),
              Fetch 1, Sleep (b * 2 ^ 1 + \<lfloor>rnd 1 * 50\<rfloor>), Fetch 2]"
proof -
  have early: "\<forall>j. j < 2 \<longrightarrow> retryable (fetch j)"
  proof (intro allI impI)
    fix j :: nat assume "j < 2"
    then have "j = 0 \<or> j = 1" by auto
    then show "retryable (fetch j)" using assms(1,2) by auto
  qed
  have third: "\<not> retryable (fetch 2)"
    using assms(3,4) by (simp add: retryable_def)
  have tr: "retries b rnd 0 2
      = [Fetch 0, Sleep (b * 2 ^ 0 + \<lfloor>rnd 0 * 50\<rfloor>), Fetch 1, Sleep (b * 2 ^ 1 + \<lfloor>rnd 1 * 50\<rfloor>)]"
    by (simp add: retries_def backoff_def upt_conv_Cons numeral_2_eq_2)
  have run: "postWithRetry 3 b fetch rnd = (Inr resp, retries b rnd 0 2 @ [Fetch 2])"
    using postWithRetry_stops [OF early _ third, of 3 b rnd] assms(3,4) by simp
  show ?thesis
    unfolding run tr
    using backoff_jitter_range assms(5) by simp
qed

theorem C7_two_retries_then_success_witness:
  "postWithRetry 3 200
     (\<lambda>k. if k < 2 then Resolved \<lparr>ok = False, status = 503, json = None\<rparr>
           else Resolved \<lparr>ok = True, status = 200, json = Some ''ok''\<rparr>)
     (\<lambda>k. if k = 0 then 1/2 else 1/10)
   = (Inr \<lparr>ok = True, status = 200, json = Some ''ok''\<rparr>,
      [Fetch 0, Sleep 225, Fetch 1, Sleep 405, Fetch 2])"
proof -
  let ?fetch = "\<lambda>k::nat. if k < 2 then Resolved \<lparr>ok = False, status = 503, json = None\<rparr>
           else Resolved \<lparr>ok = True, status = 200, json = Some ''ok''\<rparr>"
  let ?rnd = "\<lambda>k::nat. if k = 0 then 1/2 else (1/10 :: real)"
  have "fst (postWithRetry 3 200 ?fetch ?rnd) = Inr \<lparr>ok = True, status = 200, json = Some ''ok''\<rparr>
      \<and> snd (postWithRetry 3 200 ?fetch ?rnd) = [Fetch 0, Sleep 225, Fetch 1, Sleep 405, Fetch 2]"
    using C7_two_retries_then_success
      [of ?fetch "\<lparr>ok = True, status = 200, json = Some ''ok''\<rparr>" ?rnd 200]
    by (simp add: retryable_def)
  then show ?thesis by (simp add: prod_eq_iff)
qed

text \<open>
  C6, at the input where the code departs from it: three attempts, all answered 503.
  The error thrown is the last \<^verbatim>\<open>Upstream 503\<close>, as claimed, but a timer is awaited after
  each of the three attempts, the final one included: three waits, where the claim has
  \<open>maxAttempts - 1 = 2\<close> and none after the final attempt. (\<open>postWithRetry_stops\<close>
  above is the part of the claim about a status that is not retried.)
\<close>

theorem C6_wait_after_final_attempt:
  "postWithRetry 3 200 (\<lambda>k. Resolved \<lparr>ok = False, status = 503, json = (None :: string option)\<rparr>)
     (\<lambda>k. 1/2)
   = (Inl (Upstream 503), [Fetch 0, Sleep 225, Fetch 1, Sleep 425, Fetch 2, Sleep 825])"
  by (simp add: postWithRetry_def postWithRetry_loop.simps backoff_def)

section \<open>Properties of the write endpoint\<close>

lemma loop_never_succeeds:
  assumes "\<forall>k. \<not> succeeds (fetch k)"
  shows "isl (fst (postWithRetry_loop max_attempts baseMs fetch rnd i lastErr effs))"
  using assms
proof (induction max_attempts baseMs fetch rnd i lastErr effs rule: postWithRetry_loop.induct)
  case (1 max_attempts baseMs fetch rnd attempt lastErr effs)
  show ?case
  proof (cases "fetch attempt")
    case Rejected
    then show ?thesis by (subst postWithRetry_loop.simps) simp
  next
    case (Resolved resp)
    then have nok: "\<not> ok resp" using "1.prems" [rule_format, of attempt] by (simp add: succeeds_def)
    show ?thesis
    proof (cases "int attempt < max_attempts \<and> 500 \<le> status resp")
      case True
      then have "isl (fst (postWithRetry_loop max_attempts baseMs fetch rnd (attempt + 1)
                 (Some (Upstream (status resp)))
                 (effs @ [Fetch attempt, Sleep (backoff baseMs attempt (rnd attempt))])))"
        using "1.IH" [OF _ Resolved nok _ "1.prems"] by simp
      then show ?thesis using True Resolved nok by (subst postWithRetry_loop.simps) simp
    next
      case False
      then show ?thesis using Resolved nok by (subst postWithRetry_loop.simps) auto
    qed
  qed
qed

lemma first_attempt_thrown:
  assumes "non_retryable (fetch 0)"
  shows "isl (fst (postWithRetry max_attempts baseMs fetch rnd))"
  using assms unfolding postWithRetry_def
  by (subst postWithRetry_loop.simps) (auto simp add: non_retryable_def split: fetched.splits)

lemma addEvent_settle_failed:
  assumes "isl outcome"
  shows "fst (addEvent_settle cfg adm outcome t rnd b)
       = \<lparr>code = 503, retry_after_header = None,
          payload = Failure ''Upstream unavailable''
                      (if probe adm then ''probe_failed'' else ''retry_exhausted'') None\<rparr>"
  using assms by (cases outcome) (simp_all add: addEvent_settle_def)

lemma addEvent_failed:
  assumes "allowed (fst (allowRequest t0 b))"
    and "isl (fst (postWithRetry (RETRY_MAX cfg) (RETRY_BASE_MS cfg) fetch rnd))"
  shows "fst (addEvent cfg t0 fetch rnd t1 rnd_cb b)
       = \<lparr>code = 503, retry_after_header = None,
          payload = Failure ''Upstream unavailable''
                      (if probe (fst (allowRequest t0 b)) then ''probe_failed''
                       else ''retry_exhausted'') None\<rparr>"
  using assms by (cases "allowRequest t0 b") (simp add: addEvent_def addEvent_settle_failed)

text \<open>
  C10. An admitted request whose first upstream attempt is answered with a status that
  is not retried gets the reply 503 with reason \<open>retry_exhausted\<close> (\<open>probe_failed\<close> when
  it was admitted as the probe), and a request whose attempts are all answered with
  retryable statuses gets the very same reply: the body does not tell the two apart.
\<close>

theorem C10_same_reason:
  assumes "allowed (fst (allowRequest t0 b))" and "non_retryable (fetch 0)"
  shows "fst (addEvent cfg t0 fetch rnd t1 rnd_cb b)
       = \<lparr>code = 503, retry_after_header = None,
          payload = Failure ''Upstream unavailable''
                      (if probe (fst (allowRequest t0 b)) then ''probe_failed''
                       else ''retry_exhausted'') None\<rparr>
       \<and> ((\<forall>k. retryable (fetch' k)) \<longrightarrow>
            fst (addEvent cfg t0 fetch' rnd' t1' rnd_cb' b)
              = fst (addEvent cfg t0 fetch rnd t1 rnd_cb b))"
proof -
  have thrown: "fst (addEvent cfg t0 fetch rnd t1 rnd_cb b)
       = \<lparr>code = 503, retry_after_header = None,
          payload = Failure ''Upstream unavailable''
                      (if probe (fst (allowRequest t0 b)) then ''probe_failed''
                       else ''retry_exhausted'') None\<rparr>"
    using assms by (intro addEvent_failed first_attempt_thrown)
  have "fst (addEvent cfg t0 fetch' rnd' t1' rnd_cb' b)
              = fst (addEvent cfg t0 fetch rnd t1 rnd_cb b)"
    if all: "\<forall>k. retryable (fetch' k)"
  proof -
    have "\<forall>k. \<not> succeeds (fetch' k)"
      using all by (auto simp add: retryable_def succeeds_def split: fetched.splits)
    then have "isl (fst (postWithRetry (RETRY_MAX cfg) (RETRY_BASE_MS cfg) fetch' rnd'))"
      unfolding postWithRetry_def by (rule loop_never_succeeds)
    then show ?thesis
      using assms(1) thrown by (simp add: addEvent_failed)
  qed
  then show ?thesis using thrown by blast
qed

theorem C10_same_reason_witness:
  "fst (addEvent default_config 100
          (\<lambda>k. Resolved \<lparr>ok = False, status = 404, json = (None :: string option)\<rparr>)
          (\<lambda>k. 1/2) 300 0 (CB_init default_config))
     = \<lparr>code = 503, retry_after_header = None,
        payload = Failure ''Upstream unavailable'' ''retry_exhausted'' None\<rparr>
   \<and> fst (addEvent default_config 100
          (\<lambda>k. Resolved \<lparr>ok = False, status = 503, json = (None :: string option)\<rparr>)
          (\<lambda>k. 1/2) 1600 0 (CB_init default_config))
     = \<lparr>code = 503, retry_after_header = None,
        payload = Failure ''Upstream unavailable'' ''retry_exhausted'' None\<rparr>"
  using C10_same_reason
    [of 100 "CB_init default_config"
        "\<lambda>k. Resolved \<lparr>ok = False, status = 404, json = (None :: string option)\<rparr>"
        default_config "\<lambda>k. 1/2" 300 0
        "\<lambda>k. Resolved \<lparr>ok = False, status = 503, json = (None :: string option)\<rparr>"
        "\<lambda>k. 1/2" 1600 0]
  by (simp add: allowRequest_def CB_init_def non_retryable_def retryable_def)

section \<open>Properties of the bounded fan-out\<close>

lemma task_succeeds_cases:
  assumes "task_succeeds task"
  obtains resp v where "snd task = Resolved resp" and "ok resp" and "json resp = Some v"
    and "task_result task = Some v"
  using assms
  by (auto simp add: task_succeeds_def task_result_def split: fetched.splits if_splits)

lemma resume_fetch:
  assumes "workers s ! w = AwaitFetch i" and "snd (tasks ! i) = Resolved resp" and "ok resp"
  shows "resume tasks w s = s\<lparr>workers := (workers s)[w := AwaitJson i resp]\<rparr>"
  using assms by (simp add: resume_def)

lemma resume_json_next:
  assumes "workers s ! w = AwaitJson i resp" and "json resp = Some v"
    and "cursor s < length tasks"
  shows "resume tasks w s
       = s\<lparr>results := (results s)[i := Some v], cursor := cursor s + 1,
            workers := (workers s)[w := AwaitFetch (cursor s)]\<rparr>"
  using assms by (simp add: resume_def worker_enter_def)

lemma resume_json_last:
  assumes "workers s ! w = AwaitJson i resp" and "json resp = Some v"
    and "\<not> cursor s < length tasks"
  shows "resume tasks w s
       = s\<lparr>results := (results s)[i := Some v], workers := (workers s)[w := Returned]\<rparr>"
  using assms by (simp add: resume_def worker_enter_def)

lemma weight_update:
  assumes "w < length ws"
  shows "sum_list (map weight (ws[w := x])) + weight (ws ! w) = sum_list (map weight ws) + weight x"
proof -
  have "weight (ws ! w) \<le> sum_list (map weight ws)"
    using assms elem_le_sum_list [of w "map weight ws"] by simp
  moreover have "sum_list ((map weight ws)[w := weight x])
      = sum_list (map weight ws) + weight x - map weight ws ! w"
    using assms by (intro sum_list_update) simp
  ultimately show ?thesis using assms by (simp add: map_update)
qed


lemma fanout_invD:
  assumes "fanout_inv K tasks s"
  shows "cursor s \<le> length tasks"
    and "length (results s) = length tasks"
    and "rejected s = None"
    and "length (workers s) = min K (length tasks)"
    and "\<And>w. w < length (workers s) \<Longrightarrow> worker_ok tasks (cursor s) (workers s ! w)"
    and "\<And>i. i < cursor s \<Longrightarrow> results s ! i = task_result (tasks ! i)
                       \<or> (\<exists>w<length (workers s). holds (workers s ! w) i)"
  using assms unfolding fanout_inv_def by blast+

lemma fanout_invI:
  assumes "cursor s \<le> length tasks"
    and "length (results s) = length tasks"
    and "rejected s = None"
    and "length (workers s) = min K (length tasks)"
    and "\<And>w. w < length (workers s) \<Longrightarrow> worker_ok tasks (cursor s) (workers s ! w)"
    and "\<And>i. i < cursor s \<Longrightarrow> results s ! i = task_result (tasks ! i)
                       \<or> (\<exists>w<length (workers s). holds (workers s ! w) i)"
  shows "fanout_inv K tasks s"
  using assms unfolding fanout_inv_def by blast

lemma inv_resume_fetch:
  assumes inv: "fanout_inv K tasks s" and w: "w < length (workers s)"
    and at: "workers s ! w = AwaitFetch i"
    and resp: "snd (tasks ! i) = Resolved resp" "ok resp"
  shows "fanout_inv K tasks (resume tasks w s)"
    and "Suc (remaining tasks (resume tasks w s)) = remaining tasks s"
proof -
  let ?s' = "s\<lparr>workers := (workers s)[w := AwaitJson i resp]\<rparr>"
  have eq: "resume tasks w s = ?s'"
    by (rule resume_fetch [OF at resp])
  have i: "i < cursor s"
    using fanout_invD(5) [OF inv w] at by simp
  have ok: "worker_ok tasks (cursor ?s') (workers ?s' ! w')" if "w' < length (workers ?s')" for w'
  proof (cases "w' = w")
    case True
    then show ?thesis using w i resp by simp
  next
    case False
    then show ?thesis using that fanout_invD(5) [OF inv, of w'] by simp
  qed
  have held: "results ?s' ! j = task_result (tasks ! j)
              \<or> (\<exists>w'<length (workers ?s'). holds (workers ?s' ! w') j)" if "j < cursor ?s'" for j
  proof -
    have "results s ! j = task_result (tasks ! j)
              \<or> (\<exists>w'<length (workers s). holds (workers s ! w') j)"
      using that fanout_invD(6) [OF inv, of j] by simp
    then show ?thesis
    proof
      assume "results s ! j = task_result (tasks ! j)"
      then show ?thesis by simp
    next
      assume "\<exists>w'<length (workers s). holds (workers s ! w') j"
      then obtain w' where w': "w' < length (workers s)" "holds (workers s ! w') j" by blast
      have "holds (workers ?s' ! w') j"
      proof (cases "w' = w")
        case True
        then have "i = j" using w' at by simp
        then show ?thesis using True w by simp
      next
        case False
        then show ?thesis using w' by simp
      qed
      then show ?thesis using w' by auto
    qed
  qed
  show "fanout_inv K tasks (resume tasks w s)"
    unfolding eq
  proof (rule fanout_invI)
    show "cursor ?s' \<le> length tasks" using fanout_invD(1) [OF inv] by simp
    show "length (results ?s') = length tasks" using fanout_invD(2) [OF inv] by simp
    show "rejected ?s' = None" using fanout_invD(3) [OF inv] by simp
    show "length (workers ?s') = min K (length tasks)" using fanout_invD(4) [OF inv] by simp
  qed (use ok held in blast)+
  have "sum_list (map weight (workers ?s')) + weight (workers s ! w)
      = sum_list (map weight (workers s)) + weight (AwaitJson i resp)"
    using weight_update [OF w] by simp
  then show "Suc (remaining tasks (resume tasks w s)) = remaining tasks s"
    unfolding eq by (simp add: remaining_def at)
qed


lemma inv_resume_json_next:
  assumes inv: "fanout_inv K tasks s" and w: "w < length (workers s)"
    and at: "workers s ! w = AwaitJson i resp"
    and body: "json resp = Some v" and more: "cursor s < length tasks"
  shows "fanout_inv K tasks (resume tasks w s)"
    and "Suc (remaining tasks (resume tasks w s)) = remaining tasks s"
proof -
  let ?s' = "s\<lparr>results := (results s)[i := Some v], cursor := cursor s + 1,
               workers := (workers s)[w := AwaitFetch (cursor s)]\<rparr>"
  have eq: "resume tasks w s = ?s'"
    by (rule resume_json_next [OF at body more])
  have mine: "i < cursor s" "snd (tasks ! i) = Resolved resp" "ok resp"
    using fanout_invD(5) [OF inv w] at by simp_all
  have res: "task_result (tasks ! i) = Some v"
    using mine body by (simp add: task_result_def)
  have len: "i < length (results s)"
    using mine(1) fanout_invD(1,2) [OF inv] by simp
  have ok: "worker_ok tasks (cursor ?s') (workers ?s' ! w')" if "w' < length (workers ?s')" for w'
  proof (cases "w' = w")
    case True
    then show ?thesis using w by simp
  next
    case False
    have "worker_ok tasks (cursor s) (workers s ! w')"
      using that fanout_invD(5) [OF inv, of w'] by simp
    then have "worker_ok tasks (cursor s + 1) (workers s ! w')"
      using more by (cases "workers s ! w'") simp_all
    then show ?thesis using False by simp
  qed
  have held: "results ?s' ! j = task_result (tasks ! j)
              \<or> (\<exists>w'<length (workers ?s'). holds (workers ?s' ! w') j)" if "j < cursor ?s'" for j
  proof (cases "j = cursor s")
    case True
    then have "holds (workers ?s' ! w) j" using w by simp
    then show ?thesis using w by auto
  next
    case False
    then have j: "j < cursor s" using that by simp
    show ?thesis
    proof (cases "j = i")
      case True
      then show ?thesis using len res by simp
    next
      case ne: False
      have "results s ! j = task_result (tasks ! j)
              \<or> (\<exists>w'<length (workers s). holds (workers s ! w') j)"
        using j fanout_invD(6) [OF inv, of j] by simp
      then show ?thesis
      proof
        assume "results s ! j = task_result (tasks ! j)"
        then show ?thesis using ne by simp
      next
        assume "\<exists>w'<length (workers s). holds (workers s ! w') j"
        then obtain w' where w': "w' < length (workers s)" "holds (workers s ! w') j" by blast
        then have "w' \<noteq> w" using at ne by auto
        then have "holds (workers ?s' ! w') j" using w' by simp
        then show ?thesis using w' by auto
      qed
    qed
  qed
  show "fanout_inv K tasks (resume tasks w s)"
    unfolding eq
  proof (rule fanout_invI)
    show "cursor ?s' \<le> length tasks" using more by simp
    show "length (results ?s') = length tasks" using fanout_invD(2) [OF inv] by simp
    show "rejected ?s' = None" using fanout_invD(3) [OF inv] by simp
    show "length (workers ?s') = min K (length tasks)" using fanout_invD(4) [OF inv] by simp
  qed (use ok held in blast)+
  have "sum_list (map weight (workers ?s')) + weight (workers s ! w)
      = sum_list (map weight (workers s)) + weight (AwaitFetch (cursor s) :: ('a, 'b) worker_state)"
    using weight_update [OF w] by simp
  then show "Suc (remaining tasks (resume tasks w s)) = remaining tasks s"
    unfolding eq using more by (simp add: remaining_def at)
qed

lemma inv_resume_json_last:
  assumes inv: "fanout_inv K tasks s" and w: "w < length (workers s)"
    and at: "workers s ! w = AwaitJson i resp"
    and body: "json resp = Some v" and last: "\<not> cursor s < length tasks"
  shows "fanout_inv K tasks (resume tasks w s)"
    and "Suc (remaining tasks (resume tasks w s)) = remaining tasks s"
proof -
  let ?s' = "s\<lparr>results := (results s)[i := Some v], workers := (workers s)[w := Returned]\<rparr>"
  have eq: "resume tasks w s = ?s'"
    by (rule resume_json_last [OF at body last])
  have mine: "i < cursor s" "snd (tasks ! i) = Resolved resp" "ok resp"
    using fanout_invD(5) [OF inv w] at by simp_all
  have res: "task_result (tasks ! i) = Some v"
    using mine body by (simp add: task_result_def)
  have len: "i < length (results s)"
    using mine(1) fanout_invD(1,2) [OF inv] by simp
  have full: "cursor s = length tasks"
    using last fanout_invD(1) [OF inv] by simp
  have ok: "worker_ok tasks (cursor ?s') (workers ?s' ! w')" if "w' < length (workers ?s')" for w'
  proof (cases "w' = w")
    case True
    then show ?thesis using w full by simp
  next
    case False
    then show ?thesis using that fanout_invD(5) [OF inv, of w'] by simp
  qed
  have held: "results ?s' ! j = task_result (tasks ! j)
              \<or> (\<exists>w'<length (workers ?s'). holds (workers ?s' ! w') j)" if "j < cursor ?s'" for j
  proof (cases "j = i")
    case True
    then show ?thesis using len res by simp
  next
    case ne: False
    have "results s ! j = task_result (tasks ! j)
            \<or> (\<exists>w'<length (workers s). holds (workers s ! w') j)"
      using that fanout_invD(6) [OF inv, of j] by simp
    then show ?thesis
    proof
      assume "results s ! j = task_result (tasks ! j)"
      then show ?thesis using ne by simp
    next
      assume "\<exists>w'<length (workers s). holds (workers s ! w') j"
      then obtain w' where w': "w' < length (workers s)" "holds (workers s ! w') j" by blast
      then have "w' \<noteq> w" using at ne by auto
      then have "holds (workers ?s' ! w') j" using w' by simp
      then show ?thesis using w' by auto
    qed
  qed
  show "fanout_inv K tasks (resume tasks w s)"
    unfolding eq
  proof (rule fanout_invI)
    show "cursor ?s' \<le> length tasks" using fanout_invD(1) [OF inv] by simp
    show "length (results ?s') = length tasks" using fanout_invD(2) [OF inv] by simp
    show "rejected ?s' = None" using fanout_invD(3) [OF inv] by simp
    show "length (workers ?s') = min K (length tasks)" using fanout_invD(4) [OF inv] by simp
  qed (use ok held in blast)+
  have "sum_list (map weight (workers ?s')) + weight (workers s ! w)
      = sum_list (map weight (workers s)) + weight (Returned :: ('a, 'b) worker_state)"
    using weight_update [OF w] by simp
  then show "Suc (remaining tasks (resume tasks w s)) = remaining tasks s"
    unfolding eq by (simp add: remaining_def at)
qed

text \<open>Any step of a suspended worker keeps the invariant and uses up one unit of work.\<close>

lemma inv_resume:
  assumes all: "\<forall>task\<in>set tasks. task_succeeds task"
    and inv: "fanout_inv K tasks s" and w: "w < length (workers s)"
    and aw: "awaiting (workers s ! w)"
  shows "fanout_inv K tasks (resume tasks w s)
       \<and> Suc (remaining tasks (resume tasks w s)) = remaining tasks s"
proof (cases "workers s ! w")
  case (AwaitFetch i)
  then have "i < length tasks"
    using fanout_invD(5) [OF inv w] fanout_invD(1) [OF inv] by simp
  then have "task_succeeds (tasks ! i)" using all by simp
  then obtain resp where "snd (tasks ! i) = Resolved resp" "ok resp"
    by (rule task_succeeds_cases)
  then show ?thesis using inv_resume_fetch [OF inv w AwaitFetch] by simp
next
  case (AwaitJson i resp)
  then have mine: "i < cursor s" "snd (tasks ! i) = Resolved resp" "ok resp"
    using fanout_invD(5) [OF inv w] by simp_all
  then have "i < length tasks" using fanout_invD(1) [OF inv] by simp
  then have "task_succeeds (tasks ! i)" using all by simp
  then obtain v where "json resp = Some v"
    using mine(2) by (auto elim: task_succeeds_cases)
  then show ?thesis
    using inv_resume_json_next [OF inv w AwaitJson] inv_resume_json_last [OF inv w AwaitJson]
    by (cases "cursor s < length tasks") simp_all
next
  case Returned
  then show ?thesis using aw by simp
next
  case (Thrown e)
  then show ?thesis using aw by simp
qed


lemma suspended_iff:
  "w \<in> set (suspended s) \<longleftrightarrow> w < length (workers s) \<and> awaiting (workers s ! w)"
  by (auto simp add: suspended_def)

lemma pick_suspended:
  assumes "suspended s = w # ws"
  shows "(w # ws) ! (c mod length (w # ws)) \<in> set (suspended s)"
proof -
  have "c mod length (w # ws) < length (w # ws)" by simp
  then have "(w # ws) ! (c mod length (w # ws)) \<in> set (w # ws)" by (rule nth_mem)
  then show ?thesis using assms by simp
qed

lemma awaiting_weight: "awaiting ws \<Longrightarrow> 0 < weight ws"
  by (cases ws) simp_all

lemma no_work_left:
  assumes "remaining tasks s = 0"
  shows "suspended s = []"
proof (rule ccontr)
  assume "suspended s \<noteq> []"
  then obtain w where "w \<in> set (suspended s)" by (cases "suspended s") auto
  then have w: "w < length (workers s)" "awaiting (workers s ! w)"
    by (simp_all add: suspended_iff)
  have "weight (workers s ! w) \<le> sum_list (map weight (workers s))"
    using w(1) elem_le_sum_list [of w "map weight (workers s)"] by simp
  moreover have "sum_list (map weight (workers s)) = 0"
    using assms unfolding remaining_def by arith
  ultimately show False
    using awaiting_weight [OF w(2)] by arith
qed

lemma fanout_run_inv:
  assumes "\<forall>task\<in>set tasks. task_succeeds task" and "fanout_inv K tasks s"
  shows "fanout_inv K tasks (fanout_run tasks sched s)"
  using assms(2)
proof (induction sched arbitrary: s)
  case Nil
  then show ?case by simp
next
  case (Cons c cs)
  show ?case
  proof (cases "suspended s")
    case Nil
    then show ?thesis using Cons.prems by simp
  next
    case (Cons w ws)
    let ?w = "(w # ws) ! (c mod length (w # ws))"
    have "?w \<in> set (suspended s)" using Cons by (rule pick_suspended)
    then have "fanout_inv K tasks (resume tasks ?w s)"
      using inv_resume [OF assms(1) Cons.prems] by (simp add: suspended_iff)
    then have "fanout_inv K tasks (fanout_run tasks cs (resume tasks ?w s))"
      by (rule Cons.IH)
    then show ?thesis using Cons by simp
  qed
qed

lemma fanout_run_finishes:
  assumes "\<forall>task\<in>set tasks. task_succeeds task" and "fanout_inv K tasks s"
    and "remaining tasks s \<le> length sched"
  shows "suspended (fanout_run tasks sched s) = []"
  using assms(2,3)
proof (induction sched arbitrary: s)
  case Nil
  then show ?case by (simp add: no_work_left)
next
  case (Cons c cs)
  show ?case
  proof (cases "suspended s")
    case Nil
    then show ?thesis by simp
  next
    case (Cons w ws)
    let ?w = "(w # ws) ! (c mod length (w # ws))"
    have "?w \<in> set (suspended s)" using Cons by (rule pick_suspended)
    then have step: "fanout_inv K tasks (resume tasks ?w s)
          \<and> Suc (remaining tasks (resume tasks ?w s)) = remaining tasks s"
      using inv_resume [OF assms(1) Cons.prems(1)] by (simp add: suspended_iff)
    then have "remaining tasks (resume tasks ?w s) \<le> length cs"
      using Cons.prems(2) by simp
    then have "suspended (fanout_run tasks cs (resume tasks ?w s)) = []"
      using step Cons.IH by blast
    then show ?thesis using Cons by simp
  qed
qed

lemma fanout_finished_outcome:
  assumes inv: "fanout_inv K tasks s" and K: "1 \<le> K" and fin: "suspended s = []"
  shows "all_returned s" and "results s = map task_result tasks"
proof -
  have ret: "workers s ! w = Returned" if "w < length (workers s)" for w
  proof -
    have "\<not> awaiting (workers s ! w)"
      using that fin suspended_iff [of w s] by simp
    moreover have "worker_ok tasks (cursor s) (workers s ! w)"
      using that by (rule fanout_invD(5) [OF inv])
    ultimately show ?thesis by (cases "workers s ! w") simp_all
  qed
  then show "all_returned s"
    by (simp add: all_returned_def list_all_length)
  have full: "cursor s = length tasks"
  proof (cases "workers s")
    case Nil
    then have "min K (length tasks) = 0" using fanout_invD(4) [OF inv] by simp
    then have "length tasks = 0" using K by (simp add: min_def split: if_splits)
    then show ?thesis using fanout_invD(1) [OF inv] by simp
  next
    case (Cons x xs)
    then have "0 < length (workers s)" by simp
    then have "worker_ok tasks (cursor s) (workers s ! 0)" "workers s ! 0 = Returned"
      using fanout_invD(5) [OF inv] ret by blast+
    then show ?thesis by simp
  qed
  show "results s = map task_result tasks"
  proof (rule nth_equalityI)
    show "length (results s) = length (map task_result tasks)"
      using fanout_invD(2) [OF inv] by simp
  next
    fix i assume "i < length (results s)"
    then have i: "i < cursor s" using full fanout_invD(2) [OF inv] by simp
    then have "results s ! i = task_result (tasks ! i)
                \<or> (\<exists>w<length (workers s). holds (workers s ! w) i)"
      by (rule fanout_invD(6) [OF inv])
    moreover have "\<not> (\<exists>w<length (workers s). holds (workers s ! w) i)"
      using ret by auto
    ultimately show "results s ! i = map task_result tasks ! i"
      using i full by simp
  qed
qed

lemma fanout_outcome_sound:
  assumes inv: "fanout_inv K tasks s" and K: "1 \<le> K"
  shows "fanout_outcome_of s = (if all_returned s then Sent (map task_result tasks) else Pending)"
proof (cases "all_returned s")
  case True
  then have "\<forall>w<length (workers s). workers s ! w = Returned"
    by (simp add: all_returned_def list_all_length)
  then have "suspended s = []"
    by (auto simp add: suspended_def filter_empty_conv)
  then have "results s = map task_result tasks"
    by (rule fanout_finished_outcome(2) [OF inv K])
  then show ?thesis
    using True fanout_invD(3) [OF inv] by (simp add: fanout_outcome_of_def)
next
  case False
  then show ?thesis
    using fanout_invD(3) [OF inv] by (simp add: fanout_outcome_of_def)
qed


text \<open>Spawning while tasks are left: each new worker claims the next index.\<close>

lemma spawn_claims:
  assumes "cursor s + n \<le> length tasks"
  shows "spawn n tasks s
       = s\<lparr>cursor := cursor s + n,
            workers := workers s @ map AwaitFetch [cursor s..<cursor s + n]\<rparr>"
  using assms
proof (induction n arbitrary: s)
  case 0
  then show ?case by simp
next
  case (Suc n)
  let ?s1 = "s\<lparr>cursor := cursor s + 1, workers := workers s @ [AwaitFetch (cursor s)]\<rparr>"
  have enter: "worker_enter tasks s = (AwaitFetch (cursor s), s\<lparr>cursor := cursor s + 1\<rparr>)"
    using Suc.prems by (simp add: worker_enter_def)
  have "spawn (Suc n) tasks s = spawn n tasks ?s1"
    by (simp add: enter)
  also have "\<dots> = ?s1\<lparr>cursor := cursor ?s1 + n,
            workers := workers ?s1 @ map AwaitFetch [cursor ?s1..<cursor ?s1 + n]\<rparr>"
    using Suc.prems by (intro Suc.IH) simp
  also have "\<dots> = s\<lparr>cursor := cursor s + Suc n,
            workers := workers s @ map AwaitFetch [cursor s..<cursor s + Suc n]\<rparr>"
    by (simp add: upt_conv_Cons)
  finally show ?case .
qed

lemma fanout_start_eq:
  "fanout_start K tasks
     = \<lparr>cursor = min K (length tasks), results = replicate (length tasks) None,
        workers = map AwaitFetch [0..<min K (length tasks)], rejected = None\<rparr>"
  unfolding fanout_start_def by (subst spawn_claims) simp_all

lemma weight_fetching: "sum_list (map weight (map AwaitFetch [0..<n])) = 2 * n"
  by (induction n) simp_all

lemma fanout_start_remaining: "remaining tasks (fanout_start K tasks) = 2 * length tasks"
proof -
  have "2 * (length tasks - min K (length tasks)) + 2 * min K (length tasks) = 2 * length tasks"
    by arith
  then show ?thesis
    by (simp add: fanout_start_eq remaining_def weight_fetching del: map_map)
qed

lemma fanout_start_inv: "fanout_inv K tasks (fanout_start K tasks)"
proof (rule fanout_invI)
  fix i assume "i < cursor (fanout_start K tasks)"
  then have "i < length (workers (fanout_start K tasks))
        \<and> holds (workers (fanout_start K tasks) ! i) i"
    by (simp add: fanout_start_eq)
  then show "results (fanout_start K tasks) ! i = task_result (tasks ! i)
      \<or> (\<exists>w<length (workers (fanout_start K tasks)). holds (workers (fanout_start K tasks) ! w) i)"
    by blast
qed (simp_all add: fanout_start_eq)

lemma fanout_run_idle:
  "suspended s = [] \<Longrightarrow> fanout_run tasks sched s = s"
  by (cases sched) simp_all

text \<open>
  C8. Take any list of tasks that all succeed and a concurrency limit of at least one
  (the handler's is 5). The executor starts \<open>min K N\<close> workers and never has more or
  fewer. Whatever the order in which the pending requests and bodies complete, once
  \<open>2 * N\<close> completions have happened the handler has sent a list of length \<open>N\<close> whose
  \<open>i\<close>-th entry is the body of the \<open>i\<close>-th task's response; before that it is still
  pending, and it never sends anything else. With no tasks no worker is started and the
  empty list is sent.
\<close>

theorem C8_fanout_in_order:
  assumes "\<forall>task\<in>set tasks. task_succeeds task" and "1 \<le> K"
    and "2 * length tasks \<le> length sched"
  shows "length (workers (fanout_start K tasks)) = min K (length tasks)
       \<and> length (workers (fanout_exec K tasks sched')) = min K (length tasks)
       \<and> fanout_outcome_of (fanout_exec K tasks sched) = Sent (map task_result tasks)
       \<and> (fanout_outcome_of (fanout_exec K tasks sched') = Sent (map task_result tasks)
            \<or> fanout_outcome_of (fanout_exec K tasks sched') = Pending)
       \<and> length (workers (fanout_start K ([] :: ('a \<times> 'b fetched) list))) = 0
       \<and> fanout_outcome_of (fanout_exec K ([] :: ('a \<times> 'b fetched) list) sched') = Sent []
       \<and> getEventsByUserId_fanout tasks sched = Sent (map task_result tasks)"
proof -
  have spawned: "length (workers (fanout_start K tasks)) = min K (length tasks)"
    by (simp add: fanout_start_eq)
  have inv: "fanout_inv K tasks (fanout_exec K tasks sch)" for sch
    unfolding fanout_exec_def by (rule fanout_run_inv [OF assms(1) fanout_start_inv])
  have kept: "length (workers (fanout_exec K tasks sched')) = min K (length tasks)"
    by (rule fanout_invD(4) [OF inv])
  have any: "fanout_outcome_of (fanout_exec K tasks sched') = Sent (map task_result tasks)
            \<or> fanout_outcome_of (fanout_exec K tasks sched') = Pending"
    using fanout_outcome_sound [OF inv assms(2), of sched'] by simp
  have finished: "fanout_outcome_of (fanout_exec K' tasks sched) = Sent (map task_result tasks)"
    if K': "1 \<le> K'" for K'
  proof -
    have inv': "fanout_inv K' tasks (fanout_exec K' tasks sched)"
      unfolding fanout_exec_def by (rule fanout_run_inv [OF assms(1) fanout_start_inv])
    have "suspended (fanout_exec K' tasks sched) = []"
      unfolding fanout_exec_def
      by (rule fanout_run_finishes [OF assms(1) fanout_start_inv])
         (simp add: fanout_start_remaining assms(3))
    then have "all_returned (fanout_exec K' tasks sched)"
      by (rule fanout_finished_outcome(1) [OF inv' K'])
    then show ?thesis
      using fanout_outcome_sound [OF inv' K'] by simp
  qed
  have none: "length (workers (fanout_start K ([] :: ('a \<times> 'b fetched) list))) = 0"
    by (simp add: fanout_start_eq)
  have "suspended (fanout_start K ([] :: ('a \<times> 'b fetched) list)) = []"
    by (simp add: fanout_start_eq suspended_def)
  then have "fanout_exec K ([] :: ('a \<times> 'b fetched) list) sched' = fanout_start K []"
    unfolding fanout_exec_def by (rule fanout_run_idle)
  then have empty: "fanout_outcome_of (fanout_exec K ([] :: ('a \<times> 'b fetched) list) sched') = Sent []"
    by (simp add: fanout_start_eq fanout_outcome_of_def all_returned_def)
  have handler: "getEventsByUserId_fanout tasks sched = Sent (map task_result tasks)"
    unfolding getEventsByUserId_fanout_def by (rule finished) (simp add: CONCURRENCY_def)
  show ?thesis
    using spawned kept finished [OF assms(2)] any none empty handler by blast
qed

theorem C8_fanout_in_order_witness:
  "fanout_outcome_of (fanout_exec 2
      [(11 :: nat, Resolved \<lparr>ok = True, status = 200, json = Some ''a''\<rparr>),
       (12, Resolved \<lparr>ok = True, status = 200, json = Some ''b''\<rparr>),
       (13, Resolved \<lparr>ok = True, status = 200, json = Some ''c''\<rparr>)]
      [1, 1, 0, 0, 0, 0])
   = Sent [Some ''a'', Some ''b'', Some ''c'']
   \<and> length (workers (fanout_start 2
      [(11 :: nat, Resolved \<lparr>ok = True, status = 200, json = Some ''a''\<rparr>),
       (12, Resolved \<lparr>ok = True, status = 200, json = Some ''b''\<rparr>),
       (13, Resolved \<lparr>ok = True, status = 200, json = Some ''c''\<rparr>)])) = 2"
proof -
  let ?tasks = "[(11 :: nat, Resolved \<lparr>ok = True, status = 200, json = Some ''a''\<rparr>),
       (12, Resolved \<lparr>ok = True, status = 200, json = Some ''b''\<rparr>),
       (13, Resolved \<lparr>ok = True, status = 200, json = Some ''c''\<rparr>)]"
  have succeed: "\<forall>task\<in>set ?tasks. task_succeeds task"
    by (simp add: task_succeeds_def task_result_def)
  have limit: "1 \<le> (2 :: nat)"
    by simp
  have enough: "2 * length ?tasks \<le> length [1 :: nat, 1, 0, 0, 0, 0]"
    by simp
  have bodies: "map task_result ?tasks = [Some ''a'', Some ''b'', Some ''c'']"
    by (simp add: task_result_def)
  have spawned: "min (2 :: nat) (length ?tasks) = 2"
    by simp
  show ?thesis
    using C8_fanout_in_order [OF succeed limit enough, of "[]"]
    unfolding bodies spawned by blast
qed

end
